theory Spec2Isabelle
  imports Main
begin

section \<open>Strings\<close>

text \<open>
  A JavaScript string is modelled as an Isabelle \<open>string\<close>: a list of code units, here the
  code units below 256.  The white space of \<open>String.prototype.trim\<close> and of the regular
  expression class \<open>\s\<close> is, in that range, tab, line feed, vertical tab, form feed,
  carriage return, space and the no-break space.
\<close>

definition whitespace :: string where
  "whitespace = [CHR 0x09, CHR 0x0A, CHR 0x0B, CHR 0x0C, CHR 0x0D, CHR 0x20, CHR 0xA0]"

definition isSpace :: "char \<Rightarrow> bool" where
  "isSpace c = (c \<in> set whitespace)"

definition trim :: "string \<Rightarrow> string" where
  "trim s = rev (dropWhile isSpace (rev (dropWhile isSpace s)))"

definition startsWith :: "string \<Rightarrow> string \<Rightarrow> bool" where
  "startsWith s p = (take (length p) s = p)"

text \<open>\<open>s.includes(sub)\<close>: \<open>sub\<close> occurs in \<open>s\<close> at some position.\<close>

fun strIncludes :: "string \<Rightarrow> string \<Rightarrow> bool" where
  "strIncludes [] sub = (sub = [])"
| "strIncludes (c # cs) sub = (startsWith (c # cs) sub \<or> strIncludes cs sub)"

text \<open>\<open>s.split(sep)\<close> for a one-character separator; the empty string gives one empty piece.\<close>

fun splitOn :: "char \<Rightarrow> string \<Rightarrow> string list" where
  "splitOn sep [] = [[]]"
| "splitOn sep (c # cs) =
     (if c = sep then [] # splitOn sep cs
      else (case splitOn sep cs of [] \<Rightarrow> [[c]] | w # ws \<Rightarrow> (c # w) # ws))"

fun joinWith :: "string \<Rightarrow> string list \<Rightarrow> string" where
  "joinWith sep [] = []"
| "joinWith sep [x] = x"
| "joinWith sep (x # y # ys) = x @ sep @ joinWith sep (y # ys)"

section \<open>The POSIX functions of \<open>node:path\<close>\<close>

text \<open>
  \<open>guard.ts\<close> imports \<open>normalize\<close> and \<open>resolve\<close> from the runtime's \<open>node:path\<close>.  They are
  modelled after Node's POSIX implementation: \<open>normalizeString\<close> walks the components between
  slashes, skips empty components and \<open>.\<close>, lets \<open>..\<close> remove the component before it, and
  keeps a \<open>..\<close> that has nothing to remove only when the path is relative.
\<close>

definition normStep :: "bool \<Rightarrow> string list \<Rightarrow> string \<Rightarrow> string list" where
  "normStep allowAboveRoot res seg =
     (if seg = [] \<or> seg = ''.'' then res
      else if seg = ''..'' then
        (if res \<noteq> [] \<and> last res \<noteq> ''..'' then butlast res
         else if allowAboveRoot then res @ [''..''] else res)
      else res @ [seg])"

definition normalizeString :: "string \<Rightarrow> bool \<Rightarrow> string" where
  "normalizeString path allowAboveRoot =
     joinWith ''/'' (foldl (normStep allowAboveRoot) [] (splitOn CHR ''/'' path))"

definition normalizePath :: "string \<Rightarrow> string" where
  "normalizePath path =
     (if path = [] then ''.''
      else
        let isAbsolute = (hd path = CHR ''/'');
            trailingSeparator = (last path = CHR ''/'');
            p = normalizeString path (\<not> isAbsolute)
        in if p = [] then (if isAbsolute then ''/'' else if trailingSeparator then ''./'' else ''.'')
           else (if isAbsolute then ''/'' else []) @ p @ (if trailingSeparator then ''/'' else []))"

text \<open>
  \<open>resolve(...args)\<close> goes through its arguments from the right, then through the process's
  working directory, until the path it builds is absolute.
\<close>

fun resolveLoop :: "string list \<Rightarrow> string \<Rightarrow> string \<times> bool" where
  "resolveLoop [] resolvedPath = (resolvedPath, False)"
| "resolveLoop (path # rest) resolvedPath =
     (if path = [] then resolveLoop rest resolvedPath
      else if hd path = CHR ''/'' then (path @ ''/'' @ resolvedPath, True)
      else resolveLoop rest (path @ ''/'' @ resolvedPath))"

definition resolve :: "string \<Rightarrow> string list \<Rightarrow> string" where
  "resolve processCwd args =
     (case resolveLoop (rev args @ [processCwd]) [] of
        (resolvedPath, resolvedAbsolute) \<Rightarrow>
          let p = normalizeString resolvedPath (\<not> resolvedAbsolute)
          in if resolvedAbsolute then ''/'' @ p
             else if p \<noteq> [] then p else ''.'')"

section \<open>Path guard (\<open>guard.ts\<close>)\<close>

record GuardResult =
  allowed :: bool
  reason :: "string option"
  resolvedPath :: "string option"

text \<open>
  The module variable \<open>allowedPrefixes\<close> starts as the empty list; \<open>initPathGuard\<close> assigns
  it.  The functions take and return it explicitly.
\<close>

definition initPathGuard :: "string \<Rightarrow> string list \<Rightarrow> string list" where
  "initPathGuard workspaceDir extraPaths =
     [normalizePath workspaceDir, ''/tmp'']
       @ map normalizePath (filter (\<lambda>trimmed. trimmed \<noteq> []) (map trim extraPaths))"

fun prefixAllows :: "string \<Rightarrow> string list \<Rightarrow> bool" where
  "prefixAllows resolved [] = False"
| "prefixAllows resolved (pre # rest) =
     (if resolved = pre \<or> startsWith resolved (pre @ ''/'') then True
      else prefixAllows resolved rest)"

definition guardPath :: "string list \<Rightarrow> string \<Rightarrow> string \<Rightarrow> string \<Rightarrow> GuardResult" where
  "guardPath allowedPrefixes processCwd inputPath workspaceDir =
     (if length allowedPrefixes = 0
      then \<lparr>allowed = True, reason = None, resolvedPath = Some inputPath\<rparr>
      else
        let resolved = normalizePath (resolve processCwd [workspaceDir, inputPath])
        in if prefixAllows resolved allowedPrefixes
           then \<lparr>allowed = True, reason = None, resolvedPath = Some resolved\<rparr>
           else \<lparr>allowed = False,
                 reason = Some (''Path denied: '' @ inputPath @ '' (resolved: '' @ resolved
                                @ '') is outside allowed directories''),
                 resolvedPath = None\<rparr>)"

section \<open>Regular expressions\<close>

text \<open>
  The guards test strings against regular-expression literals.  The fragment they use is
  modelled by a backtracking matcher: the state is the code unit before the current position
  (\<open>None\<close> at the start of the input) and the rest of the input, and \<open>rmatch\<close> lists the
  states in which a match of the expression can end, in the order in which the engine of
  ECMAScript tries them (greedy repetition first, the left alternative first).
\<close>

datatype cclass = OneOf string | NoneOf string

fun inClass :: "cclass \<Rightarrow> char \<Rightarrow> bool" where
  "inClass (OneOf cs) c = (c \<in> set cs)"
| "inClass (NoneOf cs) c = (c \<notin> set cs)"

definition lowerAZ :: string where "lowerAZ = ''abcdefghijklmnopqrstuvwxyz''"
definition upperAZ :: string where "upperAZ = ''ABCDEFGHIJKLMNOPQRSTUVWXYZ''"
definition digits :: string where "digits = ''0123456789''"

text \<open>\<open>\w\<close> is \<open>[A-Za-z0-9_]\<close>; a word boundary has a word character on exactly one side.\<close>

definition isWordChar :: "char option \<Rightarrow> bool" where
  "isWordChar oc = (case oc of None \<Rightarrow> False | Some c \<Rightarrow> c \<in> set (upperAZ @ lowerAZ @ digits @ ''_''))"

datatype regex =
    Atom cclass
  | Star cclass
  | Seq regex regex
  | Alt regex regex
  | Opt regex
  | Bol
  | Eol
  | WordB
  | Eps

type_synonym mstate = "char option \<times> string"

fun rmatch :: "regex \<Rightarrow> mstate \<Rightarrow> mstate list" where
  "rmatch (Atom k) (p, []) = []"
| "rmatch (Atom k) (p, c # cs) = (if inClass k c then [(Some c, cs)] else [])"
| "rmatch (Star k) (p, []) = [(p, [])]"
| "rmatch (Star k) (p, c # cs) =
     (if inClass k c then rmatch (Star k) (Some c, cs) else []) @ [(p, c # cs)]"
| "rmatch (Seq a b) st = concat (map (rmatch b) (rmatch a st))"
| "rmatch (Alt a b) st = rmatch a st @ rmatch b st"
| "rmatch (Opt a) st = rmatch a st @ [st]"
| "rmatch Bol (p, s) = (if p = None then [(p, s)] else [])"
| "rmatch Eol (p, s) = (if s = [] then [(p, s)] else [])"
| "rmatch WordB (p, s) =
     (if isWordChar p \<noteq> isWordChar (case s of [] \<Rightarrow> None | c # _ \<Rightarrow> Some c)
      then [(p, s)] else [])"
| "rmatch Eps st = [st]"

text \<open>\<open>re.test(s)\<close>: the expression matches at some start position of \<open>s\<close>.\<close>

fun searchFrom :: "regex \<Rightarrow> char option \<Rightarrow> string \<Rightarrow> bool" where
  "searchFrom r p [] = (rmatch r (p, []) \<noteq> [])"
| "searchFrom r p (c # cs) = (rmatch r (p, c # cs) \<noteq> [] \<or> searchFrom r (Some c) cs)"

definition regexTest :: "regex \<Rightarrow> string \<Rightarrow> bool" where
  "regexTest r s = searchFrom r None s"

text \<open>\<open>s.replace(re, "")\<close> without the \<open>g\<close> flag: the first match, from the left, is removed.\<close>

fun replaceFrom :: "regex \<Rightarrow> char option \<Rightarrow> string \<Rightarrow> string" where
  "replaceFrom r p [] = []"
| "replaceFrom r p (c # cs) =
     (case rmatch r (p, c # cs) of
        (q, rest) # _ \<Rightarrow> rest
      | [] \<Rightarrow> c # replaceFrom r (Some c) cs)"

definition replaceFirst :: "regex \<Rightarrow> string \<Rightarrow> string" where
  "replaceFirst r s = replaceFrom r None s"

text \<open>Abbreviations for writing the literals down: a literal string, \<open>k+\<close>, \<open>k{n}\<close>, a sequence.\<close>

fun lit :: "string \<Rightarrow> regex" where
  "lit [] = Eps"
| "lit (c # cs) = Seq (Atom (OneOf [c])) (lit cs)"

definition oneOrMore :: "cclass \<Rightarrow> regex" where
  "oneOrMore k = Seq (Atom k) (Star k)"

fun cat :: "regex list \<Rightarrow> regex" where
  "cat [] = Eps"
| "cat (r # rs) = Seq r (cat rs)"

definition repeatN :: "nat \<Rightarrow> cclass \<Rightarrow> regex" where
  "repeatN n k = cat (replicate n (Atom k))"

definition cSpace :: cclass where "cSpace = OneOf whitespace"
definition cNonSpace :: cclass where "cNonSpace = NoneOf whitespace"
definition cLetter :: cclass where "cLetter = OneOf (lowerAZ @ upperAZ)"
definition cDigit :: cclass where "cDigit = OneOf digits"

section \<open>Command guard (\<open>guard.ts\<close>)\<close>

definition DEFAULT_ALLOWED_COMMANDS :: "string list" where
  "DEFAULT_ALLOWED_COMMANDS = [
    ''ls'', ''cat'', ''head'', ''tail'', ''wc'', ''file'', ''stat'', ''du'', ''df'',
    ''cp'', ''mv'', ''rm'', ''mkdir'', ''touch'', ''chmod'', ''chown'', ''ln'',
    ''readlink'', ''realpath'', ''basename'', ''dirname'', ''mktemp'', ''find'', ''grep'',
    ''egrep'', ''fgrep'', ''rg'', ''fd'', ''sed'', ''awk'', ''sort'', ''uniq'', ''cut'',
    ''tr'', ''tee'', ''xargs'', ''diff'', ''comm'', ''paste'', ''column'', ''fold'',
    ''fmt'', ''nl'', ''npm'', ''npx'', ''node'', ''git'', ''python'', ''python3'', ''pip'',
    ''pip3'', ''make'', ''gcc'', ''g++'', ''cargo'', ''rustc'', ''go'', ''java'',
    ''javac'', ''tsc'', ''tsgo'', ''biome'', ''vitest'', ''jest'', ''bun'', ''deno'',
    ''curl'', ''wget'', ''ssh'', ''scp'', ''rsync'', ''tar'', ''zip'', ''unzip'', ''gzip'',
    ''gunzip'', ''bzip2'', ''xz'', ''date'', ''whoami'', ''uname'', ''hostname'',
    ''printenv'', ''which'', ''type'', ''whereis'', ''id'', ''groups'', ''uptime'', ''jq'',
    ''yq'', ''base64'', ''md5sum'', ''sha256sum'', ''sleep'', ''timeout'', ''seq'',
    ''yes'', ''ps'', ''kill'', ''pgrep'', ''pkill'', ''lsof'', ''apt'', ''apt-get'',
    ''apk'', ''brew'', ''less'', ''more'', ''man'', ''clear'', ''tput'']"

text \<open>Shell builtins that are implicitly allowed; \<open>eval\<close> and \<open>exec\<close> are not among them.\<close>

definition SHELL_BUILTINS :: "string list" where
  "SHELL_BUILTINS = [
    ''cd'', ''echo'', ''printf'', ''export'', ''pwd'', ''set'', ''unset'', ''read'',
    ''test'', ''['', ''true'', ''false'', ''exit'', ''return'', ''shift'', ''wait'',
    ''trap'', ''source'', ''.'', ''local'', ''declare'', ''typeset'', ''alias'',
    ''unalias'', ''hash'', ''command'', ''builtin'', ''let'', ''getopts'', ''pushd'',
    ''popd'', ''dirs'', ''umask'', ''ulimit'', ''times'', ''bg'', ''fg'', ''jobs'',
    ''disown'', ''enable'', ''help'', ''logout'', ''mapfile'', ''readarray'', ''compgen'',
    ''complete'', ''compopt'', ''coproc'', ''select'', ''shopt'']"

text \<open>
  The module variable \<open>allowedCommands\<close> is a set of strings, initially the default set;
  \<open>initCommandGuard\<close> rebuilds it from the default set, the additions and the removals.
\<close>

definition initCommandGuard :: "string list \<Rightarrow> string list \<Rightarrow> string set" where
  "initCommandGuard addCommands removeCommands =
     (set DEFAULT_ALLOWED_COMMANDS \<union> set addCommands) - set removeCommands"

text \<open>
  The critical patterns, in the order of the source:
  \<^verbatim>\<open>/\brm\s+(-[a-zA-Z]*f[a-zA-Z]*\s+)?-[a-zA-Z]*r[a-zA-Z]*\s+\/(\s|$|\*)/\<close>,
  \<^verbatim>\<open>/\brm\s+(-[a-zA-Z]*r[a-zA-Z]*\s+)?-[a-zA-Z]*f[a-zA-Z]*\s+\/(\s|$|\*)/\<close> and
  \<^verbatim>\<open>/:\(\)\s*\{\s*:\s*\|\s*:\s*&\s*\}\s*;\s*:/\<close>.
\<close>

definition rmPattern :: "char \<Rightarrow> char \<Rightarrow> regex" where
  "rmPattern x y =
     cat [WordB, lit ''rm'', oneOrMore cSpace,
          Opt (cat [lit ''-'', Star cLetter, lit [x], Star cLetter, oneOrMore cSpace]),
          lit ''-'', Star cLetter, lit [y], Star cLetter, oneOrMore cSpace,
          lit ''/'', Alt (Atom cSpace) (Alt Eol (lit ''*''))]"

definition forkBombPattern :: regex where
  "forkBombPattern =
     cat [lit '':()'', Star cSpace, lit ''{'', Star cSpace, lit '':'', Star cSpace, lit ''|'',
          Star cSpace, lit '':'', Star cSpace, lit ''&'', Star cSpace, lit ''}'', Star cSpace,
          lit '';'', Star cSpace, lit '':'']"

definition CRITICAL_PATTERNS :: "(regex \<times> string) list" where
  "CRITICAL_PATTERNS =
     [(rmPattern CHR ''f'' CHR ''r'', ''Blocked: rm -rf /''),
      (rmPattern CHR ''r'' CHR ''f'', ''Blocked: rm -rf /''),
      (forkBombPattern, ''Blocked: fork bomb'')]"

text \<open>
  \<open>splitCommandSegments\<close>: the loop over the characters, with the segments found so far, the
  current segment, and the three flags.  Where the source looks at \<open>command[i + 1]\<close> and
  skips it with \<open>i++\<close>, the model looks at the head of the rest and drops it.
\<close>

fun splitLoop :: "string \<Rightarrow> string list \<Rightarrow> string \<Rightarrow> bool \<Rightarrow> bool \<Rightarrow> bool \<Rightarrow> string list \<times> string" where
  "splitLoop [] segments current inSingle inDouble escaped = (segments, current)"
| "splitLoop (ch # rest) segments current inSingle inDouble escaped =
     (if escaped then splitLoop rest segments (current @ [ch]) inSingle inDouble False
      else if ch = CHR 0x5C then splitLoop rest segments (current @ [ch]) inSingle inDouble True
      else if ch = CHR 0x27 \<and> \<not> inDouble
        then splitLoop rest segments (current @ [ch]) (\<not> inSingle) inDouble escaped
      else if ch = CHR 0x22 \<and> \<not> inSingle
        then splitLoop rest segments (current @ [ch]) inSingle (\<not> inDouble) escaped
      else if inSingle \<or> inDouble
        then splitLoop rest segments (current @ [ch]) inSingle inDouble escaped
      else if ch = CHR '';'' then splitLoop rest (segments @ [current]) [] inSingle inDouble escaped
      else if ch = CHR ''|'' then
        (case rest of
           c # rest' \<Rightarrow>
             if c = CHR ''|'' then splitLoop rest' (segments @ [current]) [] inSingle inDouble escaped
             else splitLoop rest (segments @ [current]) [] inSingle inDouble escaped
         | [] \<Rightarrow> splitLoop rest (segments @ [current]) [] inSingle inDouble escaped)
      else if ch = CHR ''&'' \<and> (case rest of c # _ \<Rightarrow> c = CHR ''&'' | [] \<Rightarrow> False)
        then splitLoop (tl rest) (segments @ [current]) [] inSingle inDouble escaped
      else splitLoop rest segments (current @ [ch]) inSingle inDouble escaped)"

definition splitCommandSegments :: "string \<Rightarrow> string list" where
  "splitCommandSegments command =
     (case splitLoop command [] [] False False False of
        (segments, current) \<Rightarrow> if trim current \<noteq> [] then segments @ [current] else segments)"

text \<open>
  \<open>extractCommandName\<close>.  The first loop drops leading \<open>(\<close> and \<open>{\<close>; the second drops leading
  environment assignments, testing \<^verbatim>\<open>/^[A-Za-z_][A-Za-z0-9_]*=\S*\s/\<close> and replacing
  \<^verbatim>\<open>/^[A-Za-z_][A-Za-z0-9_]*=\S*\s+/\<close> by the empty string.
\<close>

definition envTestPattern :: regex where
  "envTestPattern =
     cat [Bol, Atom (OneOf (upperAZ @ lowerAZ @ ''_'')), Star (OneOf (upperAZ @ lowerAZ @ digits @ ''_'')),
          lit ''='', Star cNonSpace, Atom cSpace]"

definition envReplacePattern :: regex where
  "envReplacePattern =
     cat [Bol, Atom (OneOf (upperAZ @ lowerAZ @ ''_'')), Star (OneOf (upperAZ @ lowerAZ @ digits @ ''_'')),
          lit ''='', Star cNonSpace, oneOrMore cSpace]"

text \<open>Both loops shorten the string in every round, so they end.\<close>

lemma length_trim_le: "length (trim s) \<le> length s"
  unfolding trim_def
  by (metis length_dropWhile_le length_rev le_trans)

lemma rmatch_length_le: "(q, rest) \<in> set (rmatch r (p, s)) \<Longrightarrow> length rest \<le> length s"
proof (induction r "(p, s)" arbitrary: p s q rest rule: rmatch.induct)
  case (4 k p c cs)
  then show ?case by (fastforce split: if_splits intro: le_SucI)
next
  case (5 a b st)
  then show ?case by (fastforce)
qed (auto split: if_splits)

lemma star_nonempty: "rmatch (Star k) st \<noteq> []"
  by (cases st; cases "snd st") auto

lemma star_result: "\<exists>x. x \<in> set (rmatch (Star k) st)"
  using star_nonempty [of k st] by (cases "rmatch (Star k) st") auto

lemma searchFrom_Bol: "searchFrom (Seq Bol r) (Some c) s = False"
  by (induction s arbitrary: c) auto

lemma rmatch_Seq_nonempty:
  "rmatch (Seq a b) st \<noteq> [] \<longleftrightarrow> (\<exists>x \<in> set (rmatch a st). rmatch b x \<noteq> [])"
  by auto

lemma rmatch_Eps_nonempty: "rmatch Eps st \<noteq> []"
  by simp

lemma seq_nonempty_mono:
  "rmatch (Seq a b) st \<noteq> [] \<Longrightarrow> (\<And>x. rmatch b x \<noteq> [] \<Longrightarrow> rmatch b' x \<noteq> [])
     \<Longrightarrow> rmatch (Seq a b') st \<noteq> []"
  by auto

lemma atom_imp_oneOrMore:
  "rmatch (Seq (Atom k) Eps) x \<noteq> [] \<Longrightarrow> rmatch (Seq (oneOrMore k) Eps) x \<noteq> []"
  using star_result [of k] by (cases x; cases "snd x") (auto simp: oneOrMore_def)

lemma envTest_imp_replace:
  "rmatch envTestPattern st \<noteq> [] \<Longrightarrow> rmatch envReplacePattern st \<noteq> []"
  unfolding envTestPattern_def envReplacePattern_def cat.simps
  by (erule seq_nonempty_mono)+ (rule atom_imp_oneOrMore)

lemma rmatch_Atom_Seq_shorter:
  "(q, rest) \<in> set (rmatch (Seq Bol (Seq (Atom k) r)) (p, s)) \<Longrightarrow> length rest < length s"
  by (cases s) (auto split: if_splits dest: rmatch_length_le)

lemma envReplace_shorter:
  assumes "regexTest envTestPattern t"
  shows "length (replaceFirst envReplacePattern t) < length t"
proof (cases t)
  case Nil
  with assms show ?thesis
    by (simp add: regexTest_def envTestPattern_def)
next
  case (Cons c cs)
  have bol: "envTestPattern = Seq Bol (cat (tl [Bol, Atom (OneOf (upperAZ @ lowerAZ @ ''_'')), Star (OneOf (upperAZ @ lowerAZ @ digits @ ''_'')),
          lit ''='', Star cNonSpace, Atom cSpace]))"
    by (simp add: envTestPattern_def)
  from assms Cons have "rmatch envTestPattern (None, t) \<noteq> []"
    unfolding regexTest_def by (simp add: bol searchFrom_Bol del: rmatch.simps)
  then have ne: "rmatch envReplacePattern (None, t) \<noteq> []"
    by (rule envTest_imp_replace)
  then obtain q rest ms where m: "rmatch envReplacePattern (None, t) = (q, rest) # ms"
    by (cases "rmatch envReplacePattern (None, t)") auto
  then have "(q, rest) \<in> set (rmatch envReplacePattern (None, t))" by simp
  then have "length rest < length t"
    unfolding envReplacePattern_def cat.simps by (rule rmatch_Atom_Seq_shorter)
  with m Cons show ?thesis
    by (simp add: replaceFirst_def)
qed

function skipGroup :: "string \<Rightarrow> string" where
  "skipGroup trimmed =
     (if startsWith trimmed ''('' \<or> startsWith trimmed ''{''
      then skipGroup (trim (drop 1 trimmed)) else trimmed)"
  by pat_completeness auto
termination
proof (relation "measure length")
  fix trimmed :: string
  assume "startsWith trimmed ''('' \<or> startsWith trimmed ''{''"
  then have "trimmed \<noteq> []" by (auto simp: startsWith_def)
  then have "length (drop 1 trimmed) < length trimmed" by simp
  with length_trim_le [of "drop 1 trimmed"]
  show "(trim (drop 1 trimmed), trimmed) \<in> measure length" by simp
qed simp

function skipEnv :: "string \<Rightarrow> string" where
  "skipEnv trimmed =
     (if regexTest envTestPattern trimmed
      then skipEnv (replaceFirst envReplacePattern trimmed) else trimmed)"
  by pat_completeness auto
termination
  by (relation "measure length") (simp_all add: envReplace_shorter)

declare skipGroup.simps [simp del] skipEnv.simps [simp del]

definition extractCommandName :: "string \<Rightarrow> string" where
  "extractCommandName segment =
     (let trimmed = skipEnv (skipGroup (trim segment));
          firstWord = takeWhile (\<lambda>c. \<not> isSpace c) trimmed;
          baseName =
            (if CHR ''/'' \<in> set firstWord
             then (let popped = last (splitOn CHR ''/'' firstWord)
                   in if popped \<noteq> [] then popped else firstWord)
             else firstWord)
      in baseName)"

fun criticalReason :: "(regex \<times> string) list \<Rightarrow> string \<Rightarrow> string option" where
  "criticalReason [] command = None"
| "criticalReason ((pattern, rsn) # rest) command =
     (if regexTest pattern command then Some rsn else criticalReason rest command)"

fun checkSegments :: "string set \<Rightarrow> string list \<Rightarrow> GuardResult" where
  "checkSegments allowedCommands [] = \<lparr>allowed = True, reason = None, resolvedPath = None\<rparr>"
| "checkSegments allowedCommands (segment # rest) =
     (let cmd = extractCommandName segment
      in if cmd = [] then checkSegments allowedCommands rest
         else if cmd \<in> set SHELL_BUILTINS then checkSegments allowedCommands rest
         else if cmd \<notin> allowedCommands
           then \<lparr>allowed = False,
                 reason = Some (''Command denied: '' @ [CHR 0x27] @ cmd @ [CHR 0x27]
                                @ '' is not on the allowed commands list''),
                 resolvedPath = None\<rparr>
         else checkSegments allowedCommands rest)"

definition guardCommand :: "string set \<Rightarrow> string \<Rightarrow> GuardResult" where
  "guardCommand allowedCommands command =
     (case criticalReason CRITICAL_PATTERNS command of
        Some rsn \<Rightarrow> \<lparr>allowed = False, reason = Some rsn, resolvedPath = None\<rparr>
      | None \<Rightarrow> checkSegments allowedCommands (splitCommandSegments command))"




definition denied :: "string \<Rightarrow> GuardResult" where
  "denied cmd = \<lparr>allowed = False,
                 reason = Some (''Command denied: '' @ [CHR 0x27] @ cmd @ [CHR 0x27]
                                @ '' is not on the allowed commands list''),
                 resolvedPath = None\<rparr>"

definition permitted :: GuardResult where
  "permitted = \<lparr>allowed = True, reason = None, resolvedPath = None\<rparr>"

section \<open>Trimming the transcript by turns (\<open>agent.ts\<close>)\<close>

text \<open>
  An \<open>AgentMessage\<close> is a user, assistant or tool-result message, or a custom message
  without a \<open>role\<close> property.  The content of a user message is a string or an array of
  parts; only the text parts matter here.
\<close>

datatype Role = UserRole | AssistantRole | ToolResultRole

datatype ContentPart = TextContent string | ImageContent string string | OtherContent

datatype Content = StringContent string | ArrayContent "ContentPart list"

record AgentMessage =
  role :: "Role option"
  content :: Content
  timestamp :: "nat option"

record TrimResult =
  messages :: "AgentMessage list"
  droppedTurns :: nat
  summary :: string

definition MAX_TURNS :: nat where
  "MAX_TURNS = 10"

text \<open>\<open>"role" in msg && msg.role === "user"\<close>\<close>

definition isUser :: "AgentMessage \<Rightarrow> bool" where
  "isUser msg = (role msg = Some UserRole)"

text \<open>The loop that splits the messages into turns, with \<open>turns\<close> and \<open>currentTurn\<close>.\<close>

fun splitTurns ::
  "AgentMessage list \<Rightarrow> AgentMessage list list \<Rightarrow> AgentMessage list
     \<Rightarrow> AgentMessage list list \<times> AgentMessage list" where
  "splitTurns [] turns currentTurn = (turns, currentTurn)"
| "splitTurns (msg # rest) turns currentTurn =
     (if isUser msg \<and> length currentTurn > 0
      then splitTurns rest (turns @ [currentTurn]) [msg]
      else splitTurns rest turns (currentTurn @ [msg]))"

definition turnsOf :: "AgentMessage list \<Rightarrow> AgentMessage list list" where
  "turnsOf msgs =
     (case splitTurns msgs [] [] of
        (turns, currentTurn) \<Rightarrow> if length currentTurn > 0 then turns @ [currentTurn] else turns)"

text \<open>The text of a user message: the string, or the text parts joined by a space.\<close>

fun textParts :: "ContentPart list \<Rightarrow> string list" where
  "textParts [] = []"
| "textParts (TextContent t # parts) = t # textParts parts"
| "textParts (_ # parts) = textParts parts"

definition textOf :: "Content \<Rightarrow> string" where
  "textOf c = (case c of StringContent s \<Rightarrow> s | ArrayContent parts \<Rightarrow> joinWith '' '' (textParts parts))"

text \<open>
  The prefix that is stripped:
  \<^verbatim>\<open>/^\[\d{4}-\d{2}-\d{2} \d{2}:\d{2}:\d{2}[+-]\d{2}:\d{2}\] \[[^\]]+\]: /\<close>.
\<close>

definition timestampPrefix :: regex where
  "timestampPrefix =
     cat [Bol, lit ''['', repeatN 4 cDigit, lit ''-'', repeatN 2 cDigit, lit ''-'', repeatN 2 cDigit,
          lit '' '', repeatN 2 cDigit, lit '':'', repeatN 2 cDigit, lit '':'', repeatN 2 cDigit,
          Atom (OneOf ''+-''), repeatN 2 cDigit, lit '':'', repeatN 2 cDigit, lit ''] ['',
          oneOrMore (NoneOf '']''), lit '']: '']"

definition summaryOf :: "AgentMessage \<Rightarrow> string" where
  "summaryOf lastDroppedUser =
     (let text = replaceFirst timestampPrefix (textOf (content lastDroppedUser))
      in if length text > 100 then take 100 text @ ''...'' else text)"

text \<open>
  \<open>trimContextByTurns\<close>.  The channel id is used for the log line only and is left out;
  \<open>now\<close> is \<open>Date.now()\<close>, the time stamp of the synthetic message when the first kept
  message has none.
\<close>

definition trimContextByTurns :: "AgentMessage list \<Rightarrow> nat \<Rightarrow> TrimResult" where
  "trimContextByTurns msgs now =
     (let turns = turnsOf msgs in
      if length turns \<le> MAX_TURNS
      then \<lparr>messages = msgs, droppedTurns = 0, summary = []\<rparr>
      else
        let dropped = length turns - MAX_TURNS;
            keptTurns = drop (length turns - MAX_TURNS) turns;
            lastDroppedTurn = turns ! (dropped - 1);
            smry = (case List.find isUser lastDroppedTurn of
                      Some lastDroppedUser \<Rightarrow> summaryOf lastDroppedUser
                    | None \<Rightarrow> []);
            kept = concat keptTurns
        in if smry \<noteq> []
           then \<lparr>messages =
                   \<lparr>role = Some UserRole,
                    content = StringContent
                      (''[Prior context trimmed. Last topic before trim: '' @ smry @ '']''),
                    timestamp = Some (case kept of
                                        first # _ \<Rightarrow> (case timestamp first of Some t \<Rightarrow> t | None \<Rightarrow> now)
                                      | [] \<Rightarrow> now)\<rparr> # kept,
                 droppedTurns = dropped, summary = smry\<rparr>
           else \<lparr>messages = kept, droppedTurns = dropped, summary = smry\<rparr>)"

section \<open>The channel store (\<open>store.ts\<close>) and the log file\<close>

record Attachment =
  original :: string
  local :: string

text \<open>A line of \<open>log.jsonl\<close>; the field \<open>text\<close> of the source is \<open>msgText\<close> here.\<close>

record LoggedMessage =
  date :: string
  ts :: string
  user :: string
  userName :: "string option"
  displayName :: "string option"
  msgText :: string
  attachments :: "Attachment list"
  isBot :: bool

text \<open>
  The files \<open><workingDir>/<channelId>/log.jsonl\<close>, by channel id: the entries appended so
  far.  The store and the bot write to the same files.
\<close>

type_synonym LogFiles = "string \<Rightarrow> LoggedMessage list"

record PendingDownload =
  pdChannelId :: string
  pdLocalPath :: string
  pdUrl :: string

text \<open>
  The state of a \<open>ChannelStore\<close>: the map \<open>recentlyLogged\<close> from the key
  \<open>channelId:ts\<close> to the time of the write, the callbacks that \<open>setTimeout\<close> has
  scheduled and that have not run yet (the time from which each may run, and the key it
  deletes), and the queue of downloads.
\<close>

record ChannelStore =
  recentlyLogged :: "string \<rightharpoonup> nat"
  timers :: "(nat \<times> string) list"
  pendingDownloads :: "PendingDownload list"

definition newChannelStore :: ChannelStore where
  "newChannelStore = \<lparr>recentlyLogged = Map.empty, timers = [], pendingDownloads = []\<rparr>"

datatype LogOutcome = Logged | AlreadyLogged | AppendFailed

text \<open>
  \<open>logMessage\<close> at the time \<open>now\<close> (\<open>Date.now()\<close>, in milliseconds; \<open>isoNow\<close> is
  \<open>new Date().toISOString()\<close>).  \<open>appendOk\<close> tells whether \<open>appendFile\<close> succeeds: when it
  fails the promise is rejected, after the key has been recorded.  \<open>Logged\<close> is the result
  \<open>true\<close>, \<open>AlreadyLogged\<close> the result \<open>false\<close>.
\<close>

definition logMessage ::
  "nat \<Rightarrow> string \<Rightarrow> bool \<Rightarrow> string \<Rightarrow> LoggedMessage \<Rightarrow> ChannelStore \<times> LogFiles
     \<Rightarrow> LogOutcome \<times> ChannelStore \<times> LogFiles" where
  "logMessage now isoNow appendOk channelId message st =
     (case st of (store, files) \<Rightarrow>
        let dedupeKey = channelId @ '':'' @ ts message in
        if recentlyLogged store dedupeKey \<noteq> None then (AlreadyLogged, store, files)
        else
          let store' = store\<lparr>recentlyLogged := (recentlyLogged store)(dedupeKey \<mapsto> now),
                              timers := timers store @ [(now + 60000, dedupeKey)]\<rparr>;
              message' = (if date message = [] then message\<lparr>date := isoNow\<rparr> else message)
          in if appendOk
             then (Logged, store', files(channelId := files channelId @ [message']))
             else (AppendFailed, store', files))"

definition logBotResponseStore ::
  "nat \<Rightarrow> string \<Rightarrow> bool \<Rightarrow> string \<Rightarrow> string \<Rightarrow> string \<Rightarrow> ChannelStore \<times> LogFiles
     \<Rightarrow> LogOutcome \<times> ChannelStore \<times> LogFiles" where
  "logBotResponseStore now isoNow appendOk channelId txt tsv st =
     logMessage now isoNow appendOk channelId
       \<lparr>date = isoNow, ts = tsv, user = ''bot'', userName = None, displayName = None,
        msgText = txt, attachments = [], isBot = True\<rparr> st"

text \<open>
  The callback of the \<open>i\<close>-th pending timer runs: it deletes its key.  A timer does not run
  before its time.
\<close>

definition timerFires :: "nat \<Rightarrow> nat \<Rightarrow> ChannelStore \<Rightarrow> ChannelStore option" where
  "timerFires now i store =
     (if i < length (timers store) \<and> fst (timers store ! i) \<le> now
      then Some (store\<lparr>recentlyLogged := (recentlyLogged store)(snd (timers store ! i) := None),
                       timers := take i (timers store) @ drop (Suc i) (timers store)\<rparr>)
      else None)"

text \<open>
  An execution of the store: calls of \<open>logMessage\<close> and runs of timer callbacks, each with
  its time.  \<open>runStore\<close> gives the outcomes of the calls, or \<open>None\<close> when the sequence is
  not an execution (the time goes back, or a timer runs that is not pending or not due).
\<close>

datatype StoreCall =
    LogMessage string LoggedMessage string bool
  | TimerFires nat

fun runStore ::
  "(nat \<times> StoreCall) list \<Rightarrow> nat \<Rightarrow> ChannelStore \<times> LogFiles
     \<Rightarrow> (LogOutcome option list \<times> ChannelStore \<times> LogFiles) option" where
  "runStore [] clock st = Some ([], st)"
| "runStore ((now, call) # calls) clock st =
     (if now < clock then None
      else
        (case call of
           LogMessage channelId message isoNow appendOk \<Rightarrow>
             (case logMessage now isoNow appendOk channelId message st of
                (outcome, st') \<Rightarrow>
                  (case runStore calls now st' of
                     None \<Rightarrow> None
                   | Some (outcomes, st'') \<Rightarrow> Some (Some outcome # outcomes, st'')))
         | TimerFires i \<Rightarrow>
             (case timerFires now i (fst st) of
                None \<Rightarrow> None
              | Some store' \<Rightarrow>
                  (case runStore calls now (store', snd st) of
                     None \<Rightarrow> None
                   | Some (outcomes, st'') \<Rightarrow> Some (None # outcomes, st'')))))"

text \<open>
  \<open>generateLocalFilename\<close> and \<open>processAttachments\<close>; the downloads themselves run in the
  background and are not modelled.
\<close>

definition generateLocalFilename :: "string \<Rightarrow> string \<Rightarrow> string" where
  "generateLocalFilename originalName timestmp =
     timestmp @ ''_'' @ map (\<lambda>c. if c \<in> set (lowerAZ @ upperAZ @ digits @ ''._-'') then c else CHR ''_'')
                           originalName"

fun processAttachments ::
  "string \<Rightarrow> (string option \<times> string option) list \<Rightarrow> string \<Rightarrow> ChannelStore
     \<Rightarrow> Attachment list \<times> ChannelStore" where
  "processAttachments channelId [] timestmp store = ([], store)"
| "processAttachments channelId ((name, url) # files) timestmp store =
     (case url of
        None \<Rightarrow> processAttachments channelId files timestmp store
      | Some u \<Rightarrow>
          if u = [] then processAttachments channelId files timestmp store
          else
            (case name of
               None \<Rightarrow> processAttachments channelId files timestmp store
             | Some n \<Rightarrow>
                 if n = [] then processAttachments channelId files timestmp store
                 else
                   let localPath = channelId @ ''/attachments/'' @ generateLocalFilename n timestmp;
                       store' = store\<lparr>pendingDownloads := pendingDownloads store
                                  @ [\<lparr>pdChannelId = channelId, pdLocalPath = localPath, pdUrl = u\<rparr>]\<rparr>
                   in (case processAttachments channelId files timestmp store' of
                         (atts, store'') \<Rightarrow> (\<lparr>original = n, local = localPath\<rparr> # atts, store''))))"

section \<open>The bot's own logging (\<open>discord.ts\<close>)\<close>

record DiscordUser =
  userId :: string
  duUserName :: string
  duDisplayName :: string

datatype EventType = Mention | Dm

record DiscordEvent =
  evType :: EventType
  channel :: string
  evTs :: string
  evUser :: string
  evText :: string
  evFiles :: "(string option \<times> string option) list option"
  evAttachments :: "Attachment list option"

text \<open>
  \<open>logToFile\<close> appends the entry to the channel's \<open>log.jsonl\<close>, with no other check.
  \<open>appendOk\<close> tells whether \<open>mkdirSync\<close> and \<open>appendFileSync\<close> succeed; when they do not,
  \<open>logToFile\<close> throws (the result \<open>None\<close>) and the file is as before.
\<close>

definition logToFile :: "bool \<Rightarrow> string \<Rightarrow> LoggedMessage \<Rightarrow> LogFiles \<Rightarrow> LogFiles option" where
  "logToFile appendOk chan entry files =
     (if appendOk then Some (files(chan := files chan @ [entry])) else None)"

definition logBotResponse ::
  "string \<Rightarrow> bool \<Rightarrow> string \<Rightarrow> string \<Rightarrow> string \<Rightarrow> LogFiles \<Rightarrow> LogFiles option" where
  "logBotResponse isoNow appendOk chan txt tsv files =
     logToFile appendOk chan
       \<lparr>date = isoNow, ts = tsv, user = ''bot'', userName = None, displayName = None,
        msgText = txt, attachments = [], isBot = True\<rparr> files"

text \<open>
  \<open>logUserMessage\<close>.  \<open>users\<close> is the bot's map of known users; \<open>snowflakeDate\<close> stands for
  the date computed from the message id,
  \<open>new Date(Number(BigInt(event.ts) >> 22n) + 1420070400000).toISOString()\<close>:
  it is \<open>None\<close> when \<open>BigInt\<close> throws (the id is not the text of an integer) or
  \<open>toISOString\<close> throws (the time is out of range).  The attachments are processed first;
  the date is computed while the entry is built, before \<open>logToFile\<close> is called, so when it
  throws nothing is appended and \<open>logUserMessage\<close> throws (the result \<open>None\<close>), as it does
  when \<open>logToFile\<close> throws.
\<close>

definition logUserMessage ::
  "(string \<rightharpoonup> DiscordUser) \<Rightarrow> (string \<Rightarrow> string option) \<Rightarrow> bool \<Rightarrow> DiscordEvent
     \<Rightarrow> ChannelStore \<times> LogFiles \<Rightarrow> Attachment list option \<times> ChannelStore \<times> LogFiles" where
  "logUserMessage users snowflakeDate appendOk event st =
     (case st of (store, files) \<Rightarrow>
        (case (case evFiles event of
                 Some fs \<Rightarrow> processAttachments (channel event) fs (evTs event) store
               | None \<Rightarrow> ([], store)) of
           (atts, store') \<Rightarrow>
             (case snowflakeDate (evTs event) of
                None \<Rightarrow> (None, store', files)
              | Some isoDate \<Rightarrow>
                  (case logToFile appendOk (channel event)
                          \<lparr>date = isoDate, ts = evTs event, user = evUser event,
                           userName = map_option duUserName (users (evUser event)),
                           displayName = map_option duDisplayName (users (evUser event)),
                           msgText = evText event, attachments = atts, isBot = False\<rparr> files of
                     None \<Rightarrow> (None, store', files)
                   | Some files' \<Rightarrow> (Some atts, store', files')))))"

section \<open>Path guard: theorems\<close>

text \<open>
  C9.  While the path guard has not been initialised, its list of allowed prefixes is
  empty, and \<open>guardPath\<close> allows every input path, \<open>/etc/shadow\<close> among them, and returns
  the input path itself as the resolved path: it is neither resolved against the
  workspace directory nor normalised (a path with \<open>..\<close> in it comes back unchanged).
\<close>

theorem guardPath_uninitialised:
  "guardPath [] processCwd inputPath workspaceDir
     = \<lparr>allowed = True, reason = None, resolvedPath = Some inputPath\<rparr>
   \<and> guardPath [] processCwd ''/etc/shadow'' ''/home/mother/workspace''
     = \<lparr>allowed = True, reason = None, resolvedPath = Some ''/etc/shadow''\<rparr>
   \<and> resolvedPath (guardPath [] processCwd ''a/../../b'' ''/home/mother/workspace'')
     = Some ''a/../../b''"
  by (simp add: guardPath_def)

subsection \<open>The initialised path guard\<close>

lemma prefixAllows_iff:
  "prefixAllows resolved ps \<longleftrightarrow> (\<exists>p \<in> set ps. resolved = p \<or> startsWith resolved (p @ ''/''))"
  by (induction ps) auto

lemma strIncludes_append: "strIncludes (a @ x @ b) x"
proof (induction a)
  case Nil
  show ?case
  proof (cases "x @ b")
    case Nil
    then show ?thesis by simp
  next
    case (Cons c cs)
    have "startsWith (x @ b) x" by (simp add: startsWith_def)
    with Cons have "strIncludes (c # cs) x" by simp
    with Cons show ?thesis by simp
  qed
next
  case (Cons c a)
  then show ?case by simp
qed

lemma guardPath_sibling_rejected: "guardPath (initPathGuard ''/home/mother/workspace'' []) processCwd
       ''/home/mother/workspace-evil/x'' ''/home/mother/workspace''
     = \<lparr>allowed = False,
        reason = Some ''Path denied: /home/mother/workspace-evil/x (resolved: /home/mother/workspace-evil/x) is outside allowed directories'',
        resolvedPath = None\<rparr>"
proof -
  have r: "resolve processCwd [''/home/mother/workspace'', ''/home/mother/workspace-evil/x'']
        = resolve ''/'' [''/home/mother/workspace'', ''/home/mother/workspace-evil/x'']"
    by (simp add: resolve_def)
  have "guardPath (initPathGuard ''/home/mother/workspace'' []) ''/''
       ''/home/mother/workspace-evil/x'' ''/home/mother/workspace''
     = \<lparr>allowed = False,
        reason = Some ''Path denied: /home/mother/workspace-evil/x (resolved: /home/mother/workspace-evil/x) is outside allowed directories'',
        resolvedPath = None\<rparr>"
    by code_simp
  then show ?thesis
    unfolding guardPath_def r .
qed

subsection \<open>What normalising a path means\<close>

text \<open>
  In the words of the specification: the components of a path, between its slashes, are read
  from left to right; an empty component and \<open>.\<close> are dropped, and \<open>..\<close> removes the
  component before it (at the root there is nothing to remove).  \<open>against base p\<close> is the
  path \<open>p\<close> read against the directory \<open>base\<close>: \<open>p\<close> itself when it is absolute.
\<close>

fun collapseDots :: "string list \<Rightarrow> string list \<Rightarrow> string list" where
  "collapseDots stack [] = stack"
| "collapseDots stack (c # cs) =
     (if c = [] \<or> c = ''.'' then collapseDots stack cs
      else if c = ''..'' then collapseDots (butlast stack) cs
      else collapseDots (stack @ [c]) cs)"

definition absolutePath :: "string \<Rightarrow> bool" where
  "absolutePath p \<longleftrightarrow> p \<noteq> [] \<and> hd p = CHR ''/''"

definition against :: "string \<Rightarrow> string \<Rightarrow> string" where
  "against base p = (if absolutePath p then p else base @ ''/'' @ p)"

definition plainName :: "string \<Rightarrow> bool" where
  "plainName c \<longleftrightarrow> c \<noteq> [] \<and> c \<noteq> ''.'' \<and> c \<noteq> ''..'' \<and> CHR ''/'' \<notin> set c"

lemma splitOn_nonempty: "splitOn sep s \<noteq> []"
  by (induction s) (auto split: list.splits)

lemma splitOn_append: "splitOn sep (a @ sep # b) = splitOn sep a @ splitOn sep b"
proof (induction a)
  case Nil
  show ?case by simp
next
  case (Cons c a)
  show ?case
  proof (cases "c = sep")
    case True
    with Cons show ?thesis by simp
  next
    case False
    obtain w ws where w: "splitOn sep a = w # ws"
      using splitOn_nonempty [of sep a] by (cases "splitOn sep a") auto
    with Cons False show ?thesis by simp
  qed
qed

lemma splitOn_no_sep: "w \<in> set (splitOn sep s) \<Longrightarrow> sep \<notin> set w"
proof (induction s arbitrary: w)
  case Nil
  then show ?case by simp
next
  case (Cons c s)
  obtain v vs where v: "splitOn sep s = v # vs"
    using splitOn_nonempty [of sep s] by (cases "splitOn sep s") auto
  with Cons show ?case by (auto split: if_splits)
qed

lemma splitOn_plain: "sep \<notin> set w \<Longrightarrow> splitOn sep w = [w]"
  by (induction w) auto

lemma splitOn_joinWith:
  "cs \<noteq> [] \<Longrightarrow> \<forall>c \<in> set cs. sep \<notin> set c \<Longrightarrow> splitOn sep (joinWith [sep] cs) = cs"
proof (induction cs)
  case Nil
  then show ?case by simp
next
  case (Cons x cs)
  show ?case
  proof (cases cs)
    case Nil
    with Cons.prems show ?thesis by (simp add: splitOn_plain)
  next
    case (Cons y ys)
    with Cons.IH Cons.prems have "splitOn sep (joinWith [sep] (y # ys)) = y # ys" by simp
    with Cons Cons.prems show ?thesis
      using splitOn_append [of sep x "joinWith [sep] (y # ys)"] by (simp add: splitOn_plain)
  qed
qed

lemma collapseDots_append:
  "collapseDots st (xs @ ys) = collapseDots (collapseDots st xs) ys"
  by (induction xs arbitrary: st) auto

lemma collapseDots_plain:
  "\<forall>c \<in> set cs. plainName c \<Longrightarrow> collapseDots st cs = st @ cs"
  by (induction cs arbitrary: st) (auto simp: plainName_def)

lemma collapseDots_elems:
  "c \<in> set (collapseDots st xs) \<Longrightarrow>
   c \<in> set st \<or> (c \<in> set xs \<and> c \<noteq> [] \<and> c \<noteq> ''.'' \<and> c \<noteq> ''..'')"
proof (induction xs arbitrary: st)
  case Nil
  then show ?case by simp
next
  case (Cons x xs)
  consider (skip) "x = [] \<or> x = ''.''" | (up) "x = ''..''"
    | (name) "x \<noteq> []" "x \<noteq> ''.''" "x \<noteq> ''..''"
    by blast
  then show ?case
  proof cases
    case skip
    with Cons.prems have "c \<in> set (collapseDots st xs)" by auto
    from Cons.IH [OF this] show ?thesis by auto
  next
    case up
    with Cons.prems have "c \<in> set (collapseDots (butlast st) xs)" by simp
    from Cons.IH [OF this] show ?thesis by (auto dest: in_set_butlastD)
  next
    case name
    with Cons.prems have "c \<in> set (collapseDots (st @ [x]) xs)" by simp
    from Cons.IH [OF this] name show ?thesis by auto
  qed
qed

lemma collapseDots_split_plain:
  "c \<in> set (collapseDots [] (splitOn CHR ''/'' p)) \<Longrightarrow> plainName c"
  using collapseDots_elems [of c "[]" "splitOn CHR ''/'' p"] splitOn_no_sep [of c "CHR ''/''" p]
  by (auto simp: plainName_def)

lemma foldl_normStep:
  "''..'' \<notin> set res \<Longrightarrow> foldl (normStep False) res xs = collapseDots res xs"
proof (induction xs arbitrary: res)
  case Nil
  show ?case by simp
next
  case (Cons x xs)
  have b: "''..'' \<notin> set (butlast res)"
    using Cons.prems by (auto dest: in_set_butlastD)
  have l: "res \<noteq> [] \<Longrightarrow> last res \<noteq> ''..''"
    using Cons.prems last_in_set by metis
  have step: "normStep False res x =
      (if x = [] \<or> x = ''.'' then res else if x = ''..'' then butlast res else res @ [x])"
    using l by (cases "res = []") (auto simp: normStep_def)
  have nd: "''..'' \<notin> set (normStep False res x)"
    unfolding step using Cons.prems b by auto
  show ?case
    using Cons.IH [OF nd] by (simp add: step)
qed

lemma normalizeString_absolute:
  "normalizeString p False = joinWith ''/'' (collapseDots [] (splitOn CHR ''/'' p))"
  by (simp add: normalizeString_def foldl_normStep)

lemma joinWith_Nil_iff: "\<forall>c \<in> set cs. c \<noteq> [] \<Longrightarrow> joinWith sep cs = [] \<longleftrightarrow> cs = []"
  by (induction sep cs rule: joinWith.induct) auto

lemma joinWith_nonempty: "cs \<noteq> [] \<Longrightarrow> last cs \<noteq> [] \<Longrightarrow> joinWith sep cs \<noteq> []"
  by (induction sep cs rule: joinWith.induct) auto

lemma last_joinWith:
  "cs \<noteq> [] \<Longrightarrow> last cs \<noteq> [] \<Longrightarrow> last (joinWith sep cs) = last (last cs)"
proof (induction sep cs rule: joinWith.induct)
  case (3 sep x y ys)
  then have "joinWith sep (y # ys) \<noteq> []"
    by (intro joinWith_nonempty) simp_all
  with 3 show ?case by simp
qed simp_all

text \<open>An absolute path in normal form is left as it is.\<close>

lemma normalizePath_normal:
  assumes "\<forall>c \<in> set cs. plainName c"
  shows "normalizePath (''/'' @ joinWith ''/'' cs) = ''/'' @ joinWith ''/'' cs"
proof (cases "cs = []")
  case True
  then show ?thesis
    by (simp add: normalizePath_def normalizeString_absolute)
next
  case False
  from assms have ne: "\<forall>c \<in> set cs. c \<noteq> []" and ns: "\<forall>c \<in> set cs. CHR ''/'' \<notin> set c"
    by (auto simp: plainName_def)
  have j: "joinWith ''/'' cs \<noteq> []"
    using joinWith_Nil_iff [OF ne] False by simp
  have sp: "splitOn CHR ''/'' (''/'' @ joinWith ''/'' cs) = [] # cs"
    using splitOn_append [of "CHR ''/''" "[]" "joinWith ''/'' cs"] splitOn_joinWith [OF False ns]
    by simp
  have c: "collapseDots [] ([] # cs) = cs"
    using collapseDots_plain [OF assms, of "[]"] by simp
  have "last cs \<noteq> []" using False ne by simp
  then have "last (joinWith ''/'' cs) = last (last cs)"
    using False by (intro last_joinWith)
  moreover have "last (last cs) \<in> set (last cs)" using \<open>last cs \<noteq> []\<close> by simp
  moreover have "CHR ''/'' \<notin> set (last cs)" using ns False by simp
  ultimately have l: "last (joinWith ''/'' cs) \<noteq> CHR ''/''" by metis
  define P where "P = ''/'' @ joinWith ''/'' cs"
  have hdP: "P \<noteq> []" "hd P = CHR ''/''" "last P \<noteq> CHR ''/''"
    using j l by (simp_all add: P_def)
  have nstr: "normalizeString P False = joinWith ''/'' cs"
    unfolding normalizeString_absolute P_def sp c ..
  have "normalizePath P = ''/'' @ joinWith ''/'' cs"
    unfolding normalizePath_def using hdP nstr j by (simp add: Let_def)
  then show ?thesis by (simp add: P_def)
qed

lemma collapse_split:
  "collapseDots st (splitOn CHR ''/'' (a @ CHR ''/'' # b))
     = collapseDots (collapseDots st (splitOn CHR ''/'' a)) (splitOn CHR ''/'' b)"
  by (simp add: splitOn_append collapseDots_append)

lemma resolve_unfold:
  "resolve processCwd [cwd, inputPath] =
     (case resolveLoop [inputPath, cwd, processCwd] [] of
        (rp, resolvedAbsolute) \<Rightarrow>
          let p = normalizeString rp (\<not> resolvedAbsolute)
          in if resolvedAbsolute then ''/'' @ p
             else if p \<noteq> [] then p else ''.'')"
  by (simp add: resolve_def)

lemma resolve_absolute:
  assumes "absolutePath inputPath \<or> absolutePath cwd \<or> absolutePath processCwd"
  shows "resolve processCwd [cwd, inputPath]
     = ''/'' @ joinWith ''/''
         (collapseDots [] (splitOn CHR ''/'' (against (against processCwd cwd) inputPath)))"
proof -
  have "\<exists>X. resolveLoop [inputPath, cwd, processCwd] [] = (X, True)
      \<and> collapseDots [] (splitOn CHR ''/'' X)
          = collapseDots [] (splitOn CHR ''/'' (against (against processCwd cwd) inputPath))"
  proof -
    consider (a) "absolutePath inputPath"
      | (b) "\<not> absolutePath inputPath" "absolutePath cwd"
      | (c) "\<not> absolutePath inputPath" "\<not> absolutePath cwd" "absolutePath processCwd"
      using assms by blast
    then show ?thesis
    proof cases
      case a
      then have "resolveLoop [inputPath, cwd, processCwd] [] = (inputPath @ ''/'', True)"
        by (simp add: absolutePath_def)
      moreover have "collapseDots [] (splitOn CHR ''/'' (inputPath @ ''/''))
          = collapseDots [] (splitOn CHR ''/'' (against (against processCwd cwd) inputPath))"
        using a by (simp add: against_def collapse_split)
      ultimately show ?thesis by blast
    next
      case b
      show ?thesis
      proof (cases "inputPath = []")
        case True
        with b have "resolveLoop [inputPath, cwd, processCwd] [] = (cwd @ ''/'', True)"
          by (simp add: absolutePath_def)
        moreover have "collapseDots [] (splitOn CHR ''/'' (cwd @ ''/''))
            = collapseDots [] (splitOn CHR ''/'' (against (against processCwd cwd) inputPath))"
          using b True by (simp add: against_def collapse_split)
        ultimately show ?thesis by blast
      next
        case False
        with b have "resolveLoop [inputPath, cwd, processCwd] [] = (cwd @ ''/'' @ inputPath @ ''/'', True)"
          by (simp add: absolutePath_def)
        moreover have "collapseDots [] (splitOn CHR ''/'' (cwd @ ''/'' @ inputPath @ ''/''))
            = collapseDots [] (splitOn CHR ''/'' (against (against processCwd cwd) inputPath))"
          using b False by (simp add: against_def collapse_split)
        ultimately show ?thesis by blast
      qed
    next
      case c
      let ?X = "processCwd @ ''/'' @ (if cwd = [] then [] else cwd @ ''/'')
                  @ (if inputPath = [] then [] else inputPath @ ''/'')"
      from c have "resolveLoop [inputPath, cwd, processCwd] [] = (?X, True)"
        by (auto simp: absolutePath_def)
      moreover have "collapseDots [] (splitOn CHR ''/'' ?X)
          = collapseDots [] (splitOn CHR ''/'' (against (against processCwd cwd) inputPath))"
        using c by (simp add: against_def collapse_split)
      ultimately show ?thesis by blast
    qed
  qed
  then obtain X where rl: "resolveLoop [inputPath, cwd, processCwd] [] = (X, True)"
    and eq: "collapseDots [] (splitOn CHR ''/'' X)
          = collapseDots [] (splitOn CHR ''/'' (against (against processCwd cwd) inputPath))"
    by blast
  have "resolve processCwd [cwd, inputPath] = ''/'' @ normalizeString X False"
    unfolding resolve_unfold rl by simp
  then show ?thesis
    by (simp only: normalizeString_absolute eq)
qed

lemma resolved_normal_form:
  assumes "absolutePath inputPath \<or> absolutePath cwd \<or> absolutePath processCwd"
  shows "normalizePath (resolve processCwd [cwd, inputPath])
     = ''/'' @ joinWith ''/''
         (collapseDots [] (splitOn CHR ''/'' (against (against processCwd cwd) inputPath)))"
  unfolding resolve_absolute [OF assms]
  by (rule normalizePath_normal) (simp add: collapseDots_split_plain)

text \<open>Normalising an absolute path; a slash at its end stays, as in Node.\<close>

lemma normalizePath_absolute:
  assumes "absolutePath p"
  shows "normalizePath p =
     (let cs = collapseDots [] (splitOn CHR ''/'' p)
      in if cs = [] then ''/''
         else ''/'' @ joinWith ''/'' cs @ (if last p = CHR ''/'' then ''/'' else []))"
proof -
  have "\<forall>c \<in> set (collapseDots [] (splitOn CHR ''/'' p)). c \<noteq> []"
    using collapseDots_split_plain [of _ p] by (auto simp: plainName_def)
  from joinWith_Nil_iff [OF this]
  show ?thesis
    using assms
    by (auto simp: normalizePath_def normalizeString_absolute absolutePath_def Let_def)
qed

text \<open>
  C1.  With the path guard initialised, the allowed prefixes are the normalised workspace
  directory, \<open>/tmp\<close> and the normalised extra paths (trimmed, the empty ones left out);
  normalising an absolute path drops its empty components and its \<open>.\<close> components and lets
  each \<open>..\<close> remove the component before it (a slash at the end of the path stays).
  \<open>guardPath\<close> resolves the input path against the directory it is given and normalises
  it: when one of the input path, that directory and the working directory of the process is
  absolute, the resolved path is \<open>/\<close> followed by the components that are left of the input
  path read against the directory, joined by slashes, and none of these components is
  empty, \<open>.\<close> or \<open>..\<close>.  \<open>guardPath\<close> allows the path exactly when the resolved path is one
  of the allowed prefixes or starts with a prefix followed by a slash, and then returns the
  resolved path.  When it rejects, the reason is \<open>Path denied: <input> (resolved:
  <resolved>) is outside allowed directories\<close>, which names the input path and the resolved
  path.  A sibling directory that only shares a textual prefix with the workspace is
  rejected: \<open>/home/mother/workspace-evil/x\<close> against the workspace
  \<open>/home/mother/workspace\<close>.
\<close>

theorem guardPath_initialised:
  "let prefixes = initPathGuard ws extraPaths;
       resolved = normalizePath (resolve processCwd [cwd, inputPath]);
       r = guardPath prefixes processCwd inputPath cwd
   in set prefixes = {normalizePath ws, ''/tmp''}
                       \<union> {normalizePath (trim p) | p. p \<in> set extraPaths \<and> trim p \<noteq> []}
    \<and> (allowed r \<longleftrightarrow> (\<exists>p \<in> set prefixes. resolved = p \<or> startsWith resolved (p @ ''/'')))
    \<and> (allowed r \<longrightarrow> resolvedPath r = Some resolved)
    \<and> (\<not> allowed r \<longrightarrow>
          reason r = Some (''Path denied: '' @ inputPath @ '' (resolved: '' @ resolved
                           @ '') is outside allowed directories'')
          \<and> strIncludes (the (reason r)) inputPath
          \<and> strIncludes (the (reason r)) resolved
          \<and> strIncludes (the (reason r)) ''outside allowed'')
    \<and> guardPath (initPathGuard ''/home/mother/workspace'' []) processCwd
          ''/home/mother/workspace-evil/x'' ''/home/mother/workspace''
        = \<lparr>allowed = False,
           reason = Some ''Path denied: /home/mother/workspace-evil/x (resolved: /home/mother/workspace-evil/x) is outside allowed directories'',
           resolvedPath = None\<rparr>
    \<and> (absolutePath inputPath \<or> absolutePath cwd \<or> absolutePath processCwd \<longrightarrow>
          resolved = ''/'' @ joinWith ''/''
             (collapseDots [] (splitOn CHR ''/'' (against (against processCwd cwd) inputPath)))
          \<and> (\<forall>c \<in> set (collapseDots [] (splitOn CHR ''/'' (against (against processCwd cwd) inputPath))).
                c \<noteq> [] \<and> c \<noteq> ''.'' \<and> c \<noteq> ''..'' \<and> CHR ''/'' \<notin> set c))
    \<and> (absolutePath path \<longrightarrow>
          normalizePath path =
            (let cs = collapseDots [] (splitOn CHR ''/'' path)
             in if cs = [] then ''/''
                else ''/'' @ joinWith ''/'' cs @ (if last path = CHR ''/'' then ''/'' else [])))
    \<and> hd prefixes = normalizePath ws"
proof -
  have ne: "length (initPathGuard ws extraPaths) \<noteq> 0"
    by (simp add: initPathGuard_def)
  have s: "set (initPathGuard ws extraPaths) = {normalizePath ws, ''/tmp''}
             \<union> {normalizePath (trim p) | p. p \<in> set extraPaths \<and> trim p \<noteq> []}"
    by (auto simp: initPathGuard_def)
  have i1: "strIncludes (''Path denied: '' @ inputPath @ '' (resolved: '' @ r2 @ '') is outside allowed directories'') inputPath" for r2
    by (rule strIncludes_append)
  have i2: "strIncludes (''Path denied: '' @ inputPath @ '' (resolved: '' @ r2 @ '') is outside allowed directories'') r2" for r2
    using strIncludes_append [of "''Path denied: '' @ inputPath @ '' (resolved: ''" r2 "'') is outside allowed directories''"]
    by simp
  have i3: "strIncludes (''Path denied: '' @ inputPath @ '' (resolved: '' @ r2 @ '') is outside allowed directories'') ''outside allowed''" for r2
    using strIncludes_append [of "''Path denied: '' @ inputPath @ '' (resolved: '' @ r2 @ '') is ''" "''outside allowed''" "'' directories''"]
    by simp
  have old: "set (initPathGuard ws extraPaths) = {normalizePath ws, ''/tmp''}
                       \<union> {normalizePath (trim p) | p. p \<in> set extraPaths \<and> trim p \<noteq> []}
    \<and> (allowed (guardPath (initPathGuard ws extraPaths) processCwd inputPath cwd)
          \<longleftrightarrow> (\<exists>p \<in> set (initPathGuard ws extraPaths).
                 normalizePath (resolve processCwd [cwd, inputPath]) = p
                 \<or> startsWith (normalizePath (resolve processCwd [cwd, inputPath])) (p @ ''/'')))
    \<and> (allowed (guardPath (initPathGuard ws extraPaths) processCwd inputPath cwd)
          \<longrightarrow> resolvedPath (guardPath (initPathGuard ws extraPaths) processCwd inputPath cwd)
                = Some (normalizePath (resolve processCwd [cwd, inputPath])))
    \<and> (\<not> allowed (guardPath (initPathGuard ws extraPaths) processCwd inputPath cwd) \<longrightarrow>
          reason (guardPath (initPathGuard ws extraPaths) processCwd inputPath cwd)
            = Some (''Path denied: '' @ inputPath @ '' (resolved: ''
                      @ normalizePath (resolve processCwd [cwd, inputPath])
                      @ '') is outside allowed directories'')
          \<and> strIncludes (the (reason (guardPath (initPathGuard ws extraPaths) processCwd inputPath cwd))) inputPath
          \<and> strIncludes (the (reason (guardPath (initPathGuard ws extraPaths) processCwd inputPath cwd)))
               (normalizePath (resolve processCwd [cwd, inputPath]))
          \<and> strIncludes (the (reason (guardPath (initPathGuard ws extraPaths) processCwd inputPath cwd)))
               ''outside allowed'')
    \<and> guardPath (initPathGuard ''/home/mother/workspace'' []) processCwd
          ''/home/mother/workspace-evil/x'' ''/home/mother/workspace''
        = \<lparr>allowed = False,
           reason = Some ''Path denied: /home/mother/workspace-evil/x (resolved: /home/mother/workspace-evil/x) is outside allowed directories'',
           resolvedPath = None\<rparr>"
    using ne s i1 i2 i3 guardPath_sibling_rejected [of processCwd]
    by (simp add: guardPath_def Let_def prefixAllows_iff del: strIncludes.simps)
  have res: "normalizePath (resolve processCwd [cwd, inputPath]) = ''/'' @ joinWith ''/''
             (collapseDots [] (splitOn CHR ''/'' (against (against processCwd cwd) inputPath)))"
    if "absolutePath inputPath \<or> absolutePath cwd \<or> absolutePath processCwd"
    by (rule resolved_normal_form [OF that])
  have pl: "\<forall>c \<in> set (collapseDots [] (splitOn CHR ''/'' (against (against processCwd cwd) inputPath))).
                c \<noteq> [] \<and> c \<noteq> ''.'' \<and> c \<noteq> ''..'' \<and> CHR ''/'' \<notin> set c"
    using collapseDots_split_plain [of _ "against (against processCwd cwd) inputPath"]
    by (auto simp: plainName_def)
  have np: "normalizePath path =
            (let cs = collapseDots [] (splitOn CHR ''/'' path)
             in if cs = [] then ''/''
                else ''/'' @ joinWith ''/'' cs @ (if last path = CHR ''/'' then ''/'' else []))"
    if "absolutePath path"
    by (rule normalizePath_absolute [OF that])
  have h: "hd (initPathGuard ws extraPaths) = normalizePath ws"
    by (simp add: initPathGuard_def)
  show ?thesis
    unfolding Let_def
    apply (intro conjI impI)
    using old res pl np h unfolding Let_def by blast+
qed

theorem guardPath_initialised_witness:
  "guardPath (initPathGuard ''/home/mother/workspace'' [''/opt/data'']) ''/'' ''/home/mother/workspace-evil/x''
       ''/home/mother/workspace''
     = \<lparr>allowed = False,
        reason = Some ''Path denied: /home/mother/workspace-evil/x (resolved: /home/mother/workspace-evil/x) is outside allowed directories'',
        resolvedPath = None\<rparr>
   \<and> resolvedPath (guardPath (initPathGuard ''/home/mother/workspace'' [''/opt/data'']) ''/'' ''ch/../MEMORY.md''
       ''/home/mother/workspace'') = Some ''/home/mother/workspace/MEMORY.md''
   \<and> resolvedPath (guardPath (initPathGuard ''/home/mother/workspace'' []) ''/srv'' ''./a/./b/../c.txt''
       ''/home/mother/workspace'') = Some ''/home/mother/workspace/a/c.txt''
   \<and> reason (guardPath (initPathGuard ''/home/mother/workspace'' []) ''/srv''
       ''/home/mother/workspace/../../etc/passwd'' ''/home/mother/workspace'')
       = Some ''Path denied: /home/mother/workspace/../../etc/passwd (resolved: /home/etc/passwd) is outside allowed directories''
   \<and> hd (initPathGuard ''/home/mother/./x/../workspace'' []) = ''/home/mother/workspace''
   \<and> allowed (guardPath (initPathGuard ''/home/mother/./x/../workspace'' []) ''/srv'' ''notes.txt''
       ''/home/mother/workspace'')"
proof -
  have a: "allowed (guardPath (initPathGuard ''/home/mother/workspace'' [''/opt/data'']) ''/'' ''ch/../MEMORY.md''
       ''/home/mother/workspace'')"
    by code_simp
  have r: "normalizePath (resolve ''/'' [''/home/mother/workspace'', ''ch/../MEMORY.md'']) = ''/home/mother/workspace/MEMORY.md''"
    by code_simp
  have b: "guardPath (initPathGuard ''/home/mother/workspace'' [''/opt/data'']) ''/'' ''/home/mother/workspace-evil/x''
       ''/home/mother/workspace''
     = \<lparr>allowed = False,
        reason = Some ''Path denied: /home/mother/workspace-evil/x (resolved: /home/mother/workspace-evil/x) is outside allowed directories'',
        resolvedPath = None\<rparr>" by code_simp
  have 12: "guardPath (initPathGuard ''/home/mother/workspace'' [''/opt/data'']) ''/'' ''/home/mother/workspace-evil/x''
       ''/home/mother/workspace''
     = \<lparr>allowed = False,
        reason = Some ''Path denied: /home/mother/workspace-evil/x (resolved: /home/mother/workspace-evil/x) is outside allowed directories'',
        resolvedPath = None\<rparr>
   \<and> resolvedPath (guardPath (initPathGuard ''/home/mother/workspace'' [''/opt/data'']) ''/'' ''ch/../MEMORY.md''
       ''/home/mother/workspace'') = Some ''/home/mother/workspace/MEMORY.md''"
    using a r b guardPath_initialised [of "''/home/mother/workspace''" "[''/opt/data'']" "''/''" "''/home/mother/workspace''" "''ch/../MEMORY.md''"]
    unfolding Let_def by simp
  \<comment> \<open>a path with \<open>.\<close> and \<open>..\<close> inside the workspace\<close>
  note T3 = guardPath_initialised [of "''/home/mother/workspace''" "[]" "''/srv''"
      "''/home/mother/workspace''" "''./a/./b/../c.txt''" "''/home/mother/./x/../workspace''",
      unfolded Let_def]
  have ab: "absolutePath ''/home/mother/workspace''" "absolutePath ''/home/mother/./x/../workspace''"
    by (simp_all add: absolutePath_def)
  have c3: "''/'' @ joinWith ''/'' (collapseDots [] (splitOn CHR ''/''
              (against (against ''/srv'' ''/home/mother/workspace'') ''./a/./b/../c.txt'')))
        = ''/home/mother/workspace/a/c.txt''"
    by code_simp
  from T3 ab have r3: "normalizePath (resolve ''/srv'' [''/home/mother/workspace'', ''./a/./b/../c.txt''])
        = ''/home/mother/workspace/a/c.txt''"
    unfolding c3 [symmetric] by blast
  have p3: "\<exists>p \<in> set (initPathGuard ''/home/mother/workspace'' []).
       ''/home/mother/workspace/a/c.txt'' = p \<or> startsWith ''/home/mother/workspace/a/c.txt'' (p @ ''/'')"
    by code_simp
  from T3 r3 p3 have 3: "resolvedPath (guardPath (initPathGuard ''/home/mother/workspace'' []) ''/srv'' ''./a/./b/../c.txt''
       ''/home/mother/workspace'') = Some ''/home/mother/workspace/a/c.txt''"
    by simp
  \<comment> \<open>the normalised workspace directory\<close>
  have c5: "(let cs = collapseDots [] (splitOn CHR ''/'' ''/home/mother/./x/../workspace'')
             in if cs = [] then ''/''
                else ''/'' @ joinWith ''/'' cs
                       @ (if last ''/home/mother/./x/../workspace'' = CHR ''/'' then ''/'' else []))
        = ''/home/mother/workspace''"
    by code_simp
  from T3 ab c5 have n5: "normalizePath ''/home/mother/./x/../workspace'' = ''/home/mother/workspace''"
    by (simp only: Let_def)
  note T5 = guardPath_initialised [of "''/home/mother/./x/../workspace''" "[]" "''/srv''"
      "''/home/mother/workspace''" "''notes.txt''" "''/''", unfolded Let_def]
  from T5 n5 have 5: "hd (initPathGuard ''/home/mother/./x/../workspace'' []) = ''/home/mother/workspace''"
    by simp
  have c6: "''/'' @ joinWith ''/'' (collapseDots [] (splitOn CHR ''/''
              (against (against ''/srv'' ''/home/mother/workspace'') ''notes.txt'')))
        = ''/home/mother/workspace/notes.txt''"
    by code_simp
  from T5 ab have r6: "normalizePath (resolve ''/srv'' [''/home/mother/workspace'', ''notes.txt''])
        = ''/home/mother/workspace/notes.txt''"
    unfolding c6 [symmetric] by blast
  have s6: "startsWith ''/home/mother/workspace/notes.txt'' (''/home/mother/workspace'' @ ''/'')"
    by code_simp
  from T5 have "set (initPathGuard ''/home/mother/./x/../workspace'' []) = {''/home/mother/workspace'', ''/tmp''}"
    unfolding n5 by simp
  with T5 r6 s6 have 6: "allowed (guardPath (initPathGuard ''/home/mother/./x/../workspace'' []) ''/srv'' ''notes.txt''
       ''/home/mother/workspace'')"
    by simp
  \<comment> \<open>a path that leaves the workspace through \<open>..\<close>\<close>
  note T4 = guardPath_initialised [of "''/home/mother/workspace''" "[]" "''/srv''"
      "''/home/mother/workspace''" "''/home/mother/workspace/../../etc/passwd''" "''/''",
      unfolded Let_def]
  have c4: "''/'' @ joinWith ''/'' (collapseDots [] (splitOn CHR ''/''
              (against (against ''/srv'' ''/home/mother/workspace'') ''/home/mother/workspace/../../etc/passwd'')))
        = ''/home/etc/passwd''"
    by code_simp
  from T4 ab have r4: "normalizePath (resolve ''/srv'' [''/home/mother/workspace'',
        ''/home/mother/workspace/../../etc/passwd'']) = ''/home/etc/passwd''"
    unfolding c4 [symmetric] by blast
  have p4: "\<not> (\<exists>p \<in> set (initPathGuard ''/home/mother/workspace'' []).
       ''/home/etc/passwd'' = p \<or> startsWith ''/home/etc/passwd'' (p @ ''/''))"
    by code_simp
  from T4 r4 p4 have 4: "reason (guardPath (initPathGuard ''/home/mother/workspace'' []) ''/srv''
       ''/home/mother/workspace/../../etc/passwd'' ''/home/mother/workspace'')
       = Some ''Path denied: /home/mother/workspace/../../etc/passwd (resolved: /home/etc/passwd) is outside allowed directories''"
    by simp
  from 12 3 4 5 6 show ?thesis by blast
qed

section \<open>Command guard: critical patterns\<close>

subsection \<open>Matching pieces of a string\<close>






















subsection \<open>The forms named by the specification\<close>















lemma criticalReason_None_iff:
  "criticalReason CRITICAL_PATTERNS c = None \<longleftrightarrow>
     \<not> regexTest (rmPattern CHR ''f'' CHR ''r'') c \<and> \<not> regexTest (rmPattern CHR ''r'' CHR ''f'') c
     \<and> \<not> regexTest forkBombPattern c"
  by (auto simp: CRITICAL_PATTERNS_def)



section \<open>Command guard: segments\<close>

definition separators :: "char set" where
  "separators = {CHR '';'', CHR ''|'', CHR ''&''}"

definition charsOf :: "string list \<times> string \<Rightarrow> char set" where
  "charsOf st = \<Union> (set ` set (fst st)) \<union> set (snd st)"



lemma dropWhile_all_Nil:
  assumes "\<forall>x \<in> set (dropWhile P s). P x"
  shows "dropWhile P s = []"
proof (rule ccontr)
  assume ne: "dropWhile P s \<noteq> []"
  then have "\<not> P (hd (dropWhile P s))" by (rule hd_dropWhile)
  moreover from ne have "hd (dropWhile P s) \<in> set (dropWhile P s)" by simp
  ultimately show False using assms by blast
qed

lemma trim_Nil_iff: "trim s = [] \<longleftrightarrow> (\<forall>c \<in> set s. isSpace c)"
proof
  assume "trim s = []"
  then have "\<forall>x \<in> set (dropWhile isSpace s). isSpace x"
    by (simp add: trim_def dropWhile_eq_Nil_conv)
  then have "dropWhile isSpace s = []" by (rule dropWhile_all_Nil)
  then show "\<forall>c \<in> set s. isSpace c"
    by (simp add: dropWhile_eq_Nil_conv)
next
  assume "\<forall>c \<in> set s. isSpace c"
  then have d: "dropWhile isSpace s = []" by (simp add: dropWhile_eq_Nil_conv)
  show "trim s = []"
    unfolding trim_def d by simp
qed

lemma extractCommandName_blank:
  assumes "trim seg = []"
  shows "extractCommandName seg = []"
proof -
  have g: "skipGroup [] = []"
    by (subst skipGroup.simps) (simp add: startsWith_def)
  have "\<not> regexTest envTestPattern []"
    by (simp add: regexTest_def envTestPattern_def)
  then have e: "skipEnv [] = []"
    by (subst skipEnv.simps) simp
  show ?thesis
    by (simp add: extractCommandName_def assms g e)
qed

lemma charsOf_simps [simp]:
  "charsOf (segs, cur) = \<Union> (set ` set segs) \<union> set cur"
  by (simp add: charsOf_def)

lemma splitLoop_Cons_cases [case_names app sep sep2]:
  assumes app: "\<And>s' d' e'.
      splitLoop (ch # rest) segs cur s d e = splitLoop rest segs (cur @ [ch]) s' d' e' \<Longrightarrow> thesis"
    and sep: "ch \<in> separators \<Longrightarrow>
      splitLoop (ch # rest) segs cur s d e = splitLoop rest (segs @ [cur]) [] s d e \<Longrightarrow> thesis"
    and sep2: "\<And>c rest'. rest = c # rest' \<Longrightarrow> ch \<in> separators \<Longrightarrow> c \<in> separators \<Longrightarrow>
      splitLoop (ch # rest) segs cur s d e = splitLoop rest' (segs @ [cur]) [] s d e \<Longrightarrow> thesis"
  shows thesis
proof (cases "e \<or> ch = CHR 0x5C \<or> (ch = CHR 0x27 \<and> \<not> d) \<or> (ch = CHR 0x22 \<and> \<not> s) \<or> s \<or> d")
  case True
  then have "\<exists>s' d' e'. splitLoop (ch # rest) segs cur s d e = splitLoop rest segs (cur @ [ch]) s' d' e'"
    by (simp) blast
  then show ?thesis using app by blast
next
  case False
  then have f: "\<not> e" "ch \<noteq> CHR 0x5C" "ch \<noteq> CHR 0x27" "ch \<noteq> CHR 0x22" "\<not> s" "\<not> d"
    by auto
  show ?thesis
  proof (cases "ch = CHR '';''")
    case True
    with f show ?thesis by (intro sep) (simp_all add: separators_def)
  next
    case semi: False
    show ?thesis
    proof (cases "ch = CHR ''|''")
      case True
      show ?thesis
      proof (cases rest)
        case Nil
        with f True show ?thesis by (intro sep) (simp_all add: separators_def)
      next
        case (Cons c rest')
        show ?thesis
        proof (cases "c = CHR ''|''")
          case c: True
          with f True Cons show ?thesis by (intro sep2 [of c rest']) (simp_all add: separators_def)
        next
          case c: False
          with f True Cons show ?thesis by (intro sep) (simp_all add: separators_def)
        qed
      qed
    next
      case bar: False
      show ?thesis
      proof (cases "ch = CHR ''&'' \<and> (case rest of c # _ \<Rightarrow> c = CHR ''&'' | [] \<Rightarrow> False)")
        case True
        then obtain rest' where r: "rest = CHR ''&'' # rest'"
          by (cases rest) auto
        with f True show ?thesis
          by (intro sep2 [of "CHR ''&''" rest']) (simp_all add: separators_def)
      next
        case False
        with f semi bar have "splitLoop (ch # rest) segs cur s d e = splitLoop rest segs (cur @ [ch]) s d e"
          by auto
        then show ?thesis by (rule app)
      qed
    qed
  qed
qed

lemma splitLoop_chars:
  "set cmd \<union> charsOf (segs, cur) \<subseteq> charsOf (splitLoop cmd segs cur s d e) \<union> separators"
proof (induction "length cmd" arbitrary: cmd segs cur s d e rule: less_induct)
  case less
  show ?case
  proof (cases cmd)
    case Nil
    then show ?thesis by simp
  next
    case (Cons ch rest)
    have r: "length rest < length cmd" by (simp add: Cons)
    show ?thesis
    proof (cases rule: splitLoop_Cons_cases [of ch rest segs cur s d e])
      case (app s' d' e')
      from less [OF r, of segs "cur @ [ch]" s' d' e']
      have "set rest \<union> charsOf (segs, cur @ [ch])
              \<subseteq> charsOf (splitLoop rest segs (cur @ [ch]) s' d' e') \<union> separators" .
      then have "set (ch # rest) \<union> charsOf (segs, cur)
              \<subseteq> charsOf (splitLoop rest segs (cur @ [ch]) s' d' e') \<union> separators" by auto
      then show ?thesis unfolding Cons app .
    next
      case sep
      from less [OF r, of "segs @ [cur]" "[]" s d e]
      have "set rest \<union> charsOf (segs @ [cur], [])
              \<subseteq> charsOf (splitLoop rest (segs @ [cur]) [] s d e) \<union> separators" .
      with sep(1) have "set (ch # rest) \<union> charsOf (segs, cur)
              \<subseteq> charsOf (splitLoop rest (segs @ [cur]) [] s d e) \<union> separators" by auto
      then show ?thesis unfolding Cons sep(2) .
    next
      case (sep2 c rest')
      have "length rest' < length cmd" by (simp add: Cons sep2(1))
      from less [OF this, of "segs @ [cur]" "[]" s d e]
      have "set rest' \<union> charsOf (segs @ [cur], [])
              \<subseteq> charsOf (splitLoop rest' (segs @ [cur]) [] s d e) \<union> separators" .
      with sep2(1,2,3) have "set (ch # rest) \<union> charsOf (segs, cur)
              \<subseteq> charsOf (splitLoop rest' (segs @ [cur]) [] s d e) \<union> separators" by auto
      then show ?thesis unfolding Cons sep2(4) .
    qed
  qed
qed


lemma searchFrom_hd:
  assumes "\<And>p s. rmatch r (p, s) \<noteq> [] \<Longrightarrow> s \<noteq> [] \<and> hd s = c"
  shows "searchFrom r p s \<Longrightarrow> c \<in> set s"
proof (induction s arbitrary: p)
  case Nil
  with assms [of p "[]"] show ?case by simp
next
  case (Cons x xs)
  from Cons.prems have "rmatch r (p, x # xs) \<noteq> [] \<or> searchFrom r (Some x) xs" by simp
  then show ?case
  proof
    assume "rmatch r (p, x # xs) \<noteq> []"
    from assms [OF this] show ?thesis by simp
  next
    assume "searchFrom r (Some x) xs"
    from Cons.IH [OF this] show ?thesis by simp
  qed
qed

lemma rmatch_lit_hd:
  "rmatch (Seq (lit (c # cs)) r) (p, s) \<noteq> [] \<Longrightarrow> s \<noteq> [] \<and> hd s = c"
  by (cases s) (auto split: if_splits)

lemma rmatch_WordB_lit_hd:
  "rmatch (Seq WordB (Seq (lit (c # cs)) r)) (p, s) \<noteq> [] \<Longrightarrow> s \<noteq> [] \<and> hd s = c"
  by (cases s) (auto split: if_splits)

lemma rmPattern_needs_r: "regexTest (rmPattern x y) command \<Longrightarrow> CHR ''r'' \<in> set command"
  unfolding regexTest_def rmPattern_def cat.simps
  by (rule searchFrom_hd [of _ "CHR ''r''" None command]) (rule rmatch_WordB_lit_hd)

lemma forkBomb_needs_colon: "regexTest forkBombPattern command \<Longrightarrow> CHR '':'' \<in> set command"
  unfolding regexTest_def forkBombPattern_def cat.simps
  by (rule searchFrom_hd [of _ "CHR '':''" None command]) (rule rmatch_lit_hd)

definition specials :: "char set" where
  "specials = {CHR 0x5C, CHR 0x27, CHR 0x22, CHR '';'', CHR ''|'', CHR ''&''}"

lemma splitLoop_plain:
  "\<forall>ch \<in> set xs. ch \<notin> specials \<Longrightarrow>
   splitLoop (xs @ rest) segs cur False False False = splitLoop rest segs (cur @ xs) False False False"
proof (induction xs arbitrary: cur)
  case Nil
  show ?case by simp
next
  case (Cons x xs)
  then have x: "x \<noteq> CHR 0x5C" "x \<noteq> CHR 0x27" "x \<noteq> CHR 0x22" "x \<noteq> CHR '';''" "x \<noteq> CHR ''|''"
    "x \<noteq> CHR ''&''"
    by (auto simp: specials_def)
  then have "splitLoop ((x # xs) @ rest) segs cur False False False
      = splitLoop (xs @ rest) segs (cur @ [x]) False False False"
    by simp
  with Cons.IH [of "cur @ [x]"] Cons.prems show ?case by (simp del: splitLoop.simps)
qed

lemma splitCommandSegments_spaces:
  assumes "\<forall>c \<in> set command. isSpace c"
  shows "splitCommandSegments command = []"
proof -
  have "\<not> isSpace ch" if "ch \<in> specials" for ch
    using that by (auto simp: specials_def isSpace_def whitespace_def)
  with assms have "\<forall>ch \<in> set command. ch \<notin> specials"
    by blast
  from splitLoop_plain [OF this, of "[]" "[]" "[]"]
  have "splitLoop command [] [] False False False = ([], command)" by simp
  moreover from assms have "trim command = []" by (simp add: trim_Nil_iff)
  ultimately show ?thesis by (simp add: splitCommandSegments_def)
qed

lemma blank_segments_chars:
  assumes "\<forall>seg \<in> set (splitCommandSegments command). trim seg = []"
    and "ch \<in> set command"
  shows "isSpace ch \<or> ch \<in> separators"
proof -
  obtain segs cur where sl: "splitLoop command [] [] False False False = (segs, cur)"
    by (cases "splitLoop command [] [] False False False")
  from splitLoop_chars [of command "[]" "[]" False False False] assms(2)
  have "ch \<in> \<Union> (set ` set segs) \<union> set cur \<union> separators"
    unfolding sl by auto
  then consider seg where "seg \<in> set segs" "ch \<in> set seg" | "ch \<in> set cur" | "ch \<in> separators"
    by auto
  then show ?thesis
  proof cases
    case 1
    with sl have "seg \<in> set (splitCommandSegments command)"
      by (simp add: splitCommandSegments_def)
    with assms(1) have "trim seg = []" by blast
    with 1(2) show ?thesis by (simp add: trim_Nil_iff)
  next
    case 2
    have "trim cur = []"
    proof (rule ccontr)
      assume "trim cur \<noteq> []"
      with sl have "cur \<in> set (splitCommandSegments command)"
        by (simp add: splitCommandSegments_def)
      with assms(1) \<open>trim cur \<noteq> []\<close> show False by blast
    qed
    with 2 show ?thesis by (simp add: trim_Nil_iff)
  next
    case 3
    then show ?thesis ..
  qed
qed

lemma blank_segments_not_critical:
  assumes "\<forall>seg \<in> set (splitCommandSegments command). trim seg = []"
  shows "criticalReason CRITICAL_PATTERNS command = None"
proof -
  have r: "CHR ''r'' \<notin> set command"
    using blank_segments_chars [OF assms, of "CHR ''r''"]
    by (auto simp: isSpace_def whitespace_def separators_def)
  have c: "CHR '':'' \<notin> set command"
    using blank_segments_chars [OF assms, of "CHR '':''"]
    by (auto simp: isSpace_def whitespace_def separators_def)
  from r c rmPattern_needs_r forkBomb_needs_colon show ?thesis
    unfolding criticalReason_None_iff by blast
qed

lemma blank_segments_permitted:
  assumes "\<forall>seg \<in> set segs. trim seg = []"
  shows "checkSegments allowedCommands segs = permitted"
  using assms
  by (induction segs) (simp_all add: permitted_def extractCommandName_blank)

text \<open>
  C10.  A command without a non-empty segment is allowed: when every segment that
  \<open>splitCommandSegments\<close> returns is empty or white space, no critical pattern matches
  the command (it consists of white space and the separator characters only), no segment
  gives a program name, and \<open>guardCommand\<close> returns \<open>allowed: true\<close>.  The empty command,
  the commands of white space only, and \<open>;\<close>, \<open>|\<close> and the like are of this kind.
\<close>

theorem guardCommand_no_segment:
  "((\<forall>seg \<in> set (splitCommandSegments command). trim seg = [])
      \<longrightarrow> guardCommand allowedCommands command = permitted)
   \<and> guardCommand allowedCommands [] = permitted
   \<and> ((\<forall>c \<in> set command. isSpace c) \<longrightarrow> guardCommand allowedCommands command = permitted)
   \<and> guardCommand allowedCommands '';'' = permitted
   \<and> guardCommand allowedCommands ''|'' = permitted
   \<and> guardCommand allowedCommands '' ; || && | '' = permitted
   \<and> allowed permitted"
proof -
  have g: "guardCommand allowedCommands command = permitted"
    if "\<forall>seg \<in> set (splitCommandSegments command). trim seg = []" for command
    using blank_segments_not_critical [OF that] blank_segments_permitted [OF that]
    by (simp add: guardCommand_def)
  have e: "\<forall>seg \<in> set (splitCommandSegments []). trim seg = []"
    "\<forall>seg \<in> set (splitCommandSegments '';''). trim seg = []"
    "\<forall>seg \<in> set (splitCommandSegments ''|''). trim seg = []"
    "\<forall>seg \<in> set (splitCommandSegments '' ; || && | ''). trim seg = []"
    by code_simp+
  have w: "\<forall>seg \<in> set (splitCommandSegments command). trim seg = []"
    if "\<forall>c \<in> set command. isSpace c"
    using splitCommandSegments_spaces [OF that] by simp
  from g e w show ?thesis by (simp add: permitted_def)
qed

theorem guardCommand_no_segment_witness:
  "guardCommand (set DEFAULT_ALLOWED_COMMANDS) ''; | ;; ||  &&'' = permitted
   \<and> guardCommand {} ''   '' = permitted"
proof -
  have 1: "\<forall>seg \<in> set (splitCommandSegments ''; | ;; ||  &&''). trim seg = []"
    by code_simp
  have 2: "\<forall>c \<in> set ''   ''. isSpace c"
    by code_simp
  from guardCommand_no_segment [of "''; | ;; ||  &&''" "set DEFAULT_ALLOWED_COMMANDS"] 1
  have a: "guardCommand (set DEFAULT_ALLOWED_COMMANDS) ''; | ;; ||  &&'' = permitted" by blast
  from guardCommand_no_segment [of "''   ''" "{}"] 2
  have b: "guardCommand {} ''   '' = permitted" by blast
  from a b show ?thesis ..
qed

subsection \<open>First matches\<close>

definition firstTo :: "regex \<Rightarrow> string \<Rightarrow> string \<Rightarrow> bool" where
  "firstTo r s t \<longleftrightarrow> (\<forall>p. \<exists>q zs. rmatch r (p, s) = (q, t) # zs)"

lemma firstTo_Eps: "firstTo Eps s s"
  by (simp add: firstTo_def)

lemma firstTo_Seq:
  assumes "firstTo a s m" "firstTo b m t"
  shows "firstTo (Seq a b) s t"
  unfolding firstTo_def
proof
  fix p
  from assms(1) obtain q zs where a: "rmatch a (p, s) = (q, m) # zs"
    unfolding firstTo_def by blast
  from assms(2) obtain q' zs' where b: "rmatch b (q, m) = (q', t) # zs'"
    unfolding firstTo_def by blast
  have "rmatch (Seq a b) (p, s) = (q', t) # (zs' @ concat (map (rmatch b) zs))"
    by (simp add: a b)
  then show "\<exists>q zs. rmatch (Seq a b) (p, s) = (q, t) # zs" by blast
qed

lemma firstTo_cat_Cons:
  "firstTo r (x @ t) t \<Longrightarrow> firstTo (cat rs) t u \<Longrightarrow> firstTo (cat (r # rs)) (x @ t) u"
  by (simp add: firstTo_Seq)

lemma firstTo_cat_Nil: "firstTo (cat []) t t"
  by (simp add: firstTo_Eps)

lemma firstTo_Atom: "inClass k c \<Longrightarrow> firstTo (Atom k) ([c] @ t) t"
  by (simp add: firstTo_def)

lemma firstTo_lit: "firstTo (lit x) (x @ t) t"
proof (induction x)
  case Nil
  show ?case by (simp add: firstTo_Eps)
next
  case (Cons c x)
  have "firstTo (Atom (OneOf [c])) (c # x @ t) (x @ t)"
    by (simp add: firstTo_def)
  with Cons show ?case by (simp add: firstTo_Seq)
qed

lemma firstTo_Star:
  assumes "\<forall>c \<in> set xs. inClass k c" "t = [] \<or> \<not> inClass k (hd t)"
  shows "firstTo (Star k) (xs @ t) t"
  using assms(1)
proof (induction xs)
  case Nil
  from assms(2) show ?case by (cases t) (auto simp: firstTo_def)
next
  case (Cons c xs)
  then have "firstTo (Star k) (xs @ t) t" by simp
  with Cons.prems show ?case
    unfolding firstTo_def by (simp) (metis append_Cons)
qed

lemma firstTo_oneOrMore:
  assumes "xs \<noteq> []" "\<forall>c \<in> set xs. inClass k c" "t = [] \<or> \<not> inClass k (hd t)"
  shows "firstTo (oneOrMore k) (xs @ t) t"
proof -
  from assms(1) obtain c cs where xs: "xs = c # cs" by (cases xs) auto
  with assms(2) have "firstTo (Atom k) ([c] @ cs @ t) (cs @ t)"
    by (intro firstTo_Atom) simp
  moreover from xs assms(2,3) have "firstTo (Star k) (cs @ t) t"
    by (intro firstTo_Star) simp_all
  ultimately show ?thesis
    unfolding oneOrMore_def xs by (simp add: firstTo_Seq)
qed

lemma replaceFirst_Bol:
  assumes "firstTo (cat rs) s t" "s \<noteq> []"
  shows "replaceFirst (cat (Bol # rs)) s = t"
proof -
  from assms(1) obtain q zs where "rmatch (cat rs) (None, s) = (q, t) # zs"
    unfolding firstTo_def by blast
  then have "rmatch (cat (Bol # rs)) (None, s) = (q, t) # zs" by simp
  with assms(2) show ?thesis
    by (cases s) (simp_all add: replaceFirst_def del: rmatch.simps cat.simps)
qed


subsection \<open>Program names\<close>






subsection \<open>Splitting at separators\<close>















section \<open>Trimming the transcript: theorems\<close>

subsection \<open>Turns\<close>

definition okTurn :: "AgentMessage list \<Rightarrow> bool" where
  "okTurn t \<longleftrightarrow> t \<noteq> [] \<and> (\<forall>m \<in> set (tl t). \<not> isUser m)"

definition userTurn :: "AgentMessage list \<Rightarrow> bool" where
  "userTurn t \<longleftrightarrow> okTurn t \<and> isUser (hd t)"

definition turnList :: "AgentMessage list list \<Rightarrow> bool" where
  "turnList tns \<longleftrightarrow> (\<forall>t \<in> set tns. okTurn t) \<and> (\<forall>t \<in> set (tl tns). userTurn t)"

lemma splitTurns_nonuser:
  "\<forall>m \<in> set ms. \<not> isUser m \<Longrightarrow>
   splitTurns (ms @ rest) turns cur = splitTurns rest turns (cur @ ms)"
  by (induction ms arbitrary: cur) simp_all

lemma splitTurns_userTurn:
  assumes "userTurn t" "cur \<noteq> []"
  shows "splitTurns (t @ rest) turns cur = splitTurns rest (turns @ [cur]) t"
proof -
  from assms(1) obtain m ms where t: "t = m # ms" and m: "isUser m"
    and ms: "\<forall>x \<in> set ms. \<not> isUser x"
    unfolding userTurn_def okTurn_def by (cases t) auto
  have "splitTurns (t @ rest) turns cur = splitTurns (ms @ rest) (turns @ [cur]) [m]"
    using m assms(2) by (simp add: t)
  also have "\<dots> = splitTurns rest (turns @ [cur]) ([m] @ ms)"
    by (rule splitTurns_nonuser [OF ms])
  finally show ?thesis by (simp add: t)
qed

lemma splitTurns_firstTurn:
  assumes "okTurn t"
  shows "splitTurns (t @ rest) turns [] = splitTurns rest turns t"
proof -
  from assms obtain m ms where t: "t = m # ms" and ms: "\<forall>x \<in> set ms. \<not> isUser x"
    unfolding okTurn_def by (cases t) auto
  have "splitTurns (t @ rest) turns [] = splitTurns (ms @ rest) turns [m]"
    by (simp add: t)
  also have "\<dots> = splitTurns rest turns ([m] @ ms)"
    by (rule splitTurns_nonuser [OF ms])
  finally show ?thesis by (simp add: t)
qed

lemma splitTurns_userTurns:
  "\<forall>t \<in> set tns. userTurn t \<Longrightarrow> cur \<noteq> [] \<Longrightarrow>
   splitTurns (concat tns) turns cur = (turns @ butlast (cur # tns), last (cur # tns))"
proof (induction tns arbitrary: turns cur)
  case Nil
  show ?case by simp
next
  case (Cons t tns)
  then have t: "userTurn t" and ne: "t \<noteq> []" by (auto simp: userTurn_def okTurn_def)
  have "splitTurns (concat (t # tns)) turns cur = splitTurns (concat tns) (turns @ [cur]) t"
    using splitTurns_userTurn [OF t Cons.prems(2)] by simp
  also have "\<dots> = ((turns @ [cur]) @ butlast (t # tns), last (t # tns))"
    using Cons.prems(1) ne by (intro Cons.IH) simp_all
  finally show ?case by simp
qed

lemma turnsOf_concat:
  assumes "turnList tns"
  shows "turnsOf (concat tns) = tns"
proof (cases tns)
  case Nil
  then show ?thesis by (simp add: turnsOf_def)
next
  case (Cons t tns')
  with assms have t: "okTurn t" and tns': "\<forall>x \<in> set tns'. userTurn x"
    by (simp_all add: turnList_def)
  then have ne: "t \<noteq> []" by (simp add: okTurn_def)
  have "splitTurns (concat tns) [] [] = splitTurns (concat tns') [] t"
    using splitTurns_firstTurn [OF t] by (simp add: Cons)
  also have "\<dots> = ([] @ butlast (t # tns'), last (t # tns'))"
    by (rule splitTurns_userTurns [OF tns' ne])
  finally have s: "splitTurns (concat tns) [] [] = (butlast tns, last tns)"
    by (simp add: Cons)
  from assms Cons have "last tns \<noteq> []"
    by (auto simp: turnList_def okTurn_def)
  with s show ?thesis by (simp add: turnsOf_def Cons del: butlast.simps last.simps)
qed

text \<open>The invariant of the loop.\<close>

definition turnState :: "AgentMessage list list \<Rightarrow> AgentMessage list \<Rightarrow> bool" where
  "turnState turns cur \<longleftrightarrow>
     turnList turns \<and> (cur = [] \<or> okTurn cur) \<and> (turns \<noteq> [] \<longrightarrow> userTurn cur)"

lemma splitTurns_invariant:
  "turnState turns cur \<Longrightarrow> splitTurns msgs turns cur = (turns', cur') \<Longrightarrow>
   turnState turns' cur' \<and> concat turns' @ cur' = concat turns @ cur @ msgs"
proof (induction msgs arbitrary: turns cur)
  case Nil
  then show ?case by simp
next
  case (Cons msg msgs)
  show ?case
  proof (cases "isUser msg \<and> cur \<noteq> []")
    case True
    with Cons.prems(2) have s: "splitTurns msgs (turns @ [cur]) [msg] = (turns', cur')" by simp
    from Cons.prems(1) True have "turnState (turns @ [cur]) [msg]"
      unfolding turnState_def turnList_def userTurn_def okTurn_def
      by (cases turns) auto
    from Cons.IH [OF this s] show ?thesis by simp
  next
    case False
    with Cons.prems(2) have s: "splitTurns msgs turns (cur @ [msg]) = (turns', cur')" by auto
    from Cons.prems(1) False have "turnState turns (cur @ [msg])"
      unfolding turnState_def turnList_def userTurn_def okTurn_def
      by (cases cur) auto
    from Cons.IH [OF this s] show ?thesis by simp
  qed
qed

lemma turnsOf_turnList: "turnList (turnsOf msgs)" and concat_turnsOf: "concat (turnsOf msgs) = msgs"
proof -
  obtain turns cur where s: "splitTurns msgs [] [] = (turns, cur)"
    by (cases "splitTurns msgs [] []")
  have "turnState [] []" by (simp add: turnState_def turnList_def)
  from splitTurns_invariant [OF this s]
  have i: "turnState turns cur" and c: "concat turns @ cur = msgs" by simp_all
  from c s show "concat (turnsOf msgs) = msgs" by (auto simp: turnsOf_def)
  from i s show "turnList (turnsOf msgs)"
    unfolding turnsOf_def turnState_def turnList_def userTurn_def
    by (cases turns) auto
qed

lemma turnList_drop: "turnList tns \<Longrightarrow> turnList (drop k tns)"
  unfolding turnList_def
  by (metis drop_Suc in_set_dropD tl_drop userTurn_def)

subsection \<open>The time stamp prefix\<close>

definition digitsN :: "nat \<Rightarrow> string \<Rightarrow> bool" where
  "digitsN n s \<longleftrightarrow> length s = n \<and> (\<forall>c \<in> set s. c \<in> set digits)"

definition isHeader :: "string \<Rightarrow> bool" where
  "isHeader h \<longleftrightarrow>
     (\<exists>yr mo dy hh mi ss sg oh om name.
        h = ''['' @ yr @ ''-'' @ mo @ ''-'' @ dy @ '' '' @ hh @ '':'' @ mi @ '':'' @ ss @ [sg] @ oh
              @ '':'' @ om @ ''] ['' @ name @ '']: ''
        \<and> digitsN 4 yr \<and> digitsN 2 mo \<and> digitsN 2 dy \<and> digitsN 2 hh \<and> digitsN 2 mi \<and> digitsN 2 ss
        \<and> (sg = CHR ''+'' \<or> sg = CHR ''-'') \<and> digitsN 2 oh \<and> digitsN 2 om
        \<and> name \<noteq> [] \<and> CHR '']'' \<notin> set name)"

lemma firstTo_repeatN:
  "digitsN n ds \<Longrightarrow> firstTo (repeatN n cDigit) (ds @ t) t"
proof (induction n arbitrary: ds)
  case 0
  then show ?case by (simp add: digitsN_def repeatN_def firstTo_Eps)
next
  case (Suc n)
  then obtain d ds' where ds: "ds = d # ds'" and d: "inClass cDigit d" and ds': "digitsN n ds'"
    by (cases ds) (auto simp: digitsN_def cDigit_def)
  from firstTo_Atom [OF d] have "firstTo (Atom cDigit) (d # ds' @ t) (ds' @ t)" by simp
  with Suc.IH [OF ds'] show ?case
    unfolding repeatN_def ds by (simp add: firstTo_Seq)
qed

lemma replaceFirst_timestampPrefix:
  assumes "isHeader h"
  shows "replaceFirst timestampPrefix (h @ body) = body"
proof -
  from assms obtain yr mo dy hh mi ss sg oh om name where
    h: "h = ''['' @ yr @ ''-'' @ mo @ ''-'' @ dy @ '' '' @ hh @ '':'' @ mi @ '':'' @ ss @ [sg] @ oh
              @ '':'' @ om @ ''] ['' @ name @ '']: ''"
    and yr: "digitsN 4 yr" and mo: "digitsN 2 mo" and dy: "digitsN 2 dy" and hh: "digitsN 2 hh"
    and mi: "digitsN 2 mi" and ss: "digitsN 2 ss" and sg: "sg = CHR ''+'' \<or> sg = CHR ''-''"
    and oh: "digitsN 2 oh" and om: "digitsN 2 om" and name: "name \<noteq> []" "CHR '']'' \<notin> set name"
    unfolding isHeader_def by blast
  have sgc: "inClass (OneOf ''+-'') sg" using sg by auto
  have nm: "\<forall>c \<in> set name. inClass (NoneOf '']'') c" using name(2) by auto
  note 1 = firstTo_cat_Cons [OF firstTo_lit [of "'']: ''" body] firstTo_cat_Nil]
  have "firstTo (oneOrMore (NoneOf '']'')) (name @ '']: '' @ body) ('']: '' @ body)"
    using name(1) nm by (intro firstTo_oneOrMore) simp_all
  note 2 = firstTo_cat_Cons [OF this 1]
  note 3 = firstTo_cat_Cons [OF firstTo_lit 2]
  note 4 = firstTo_cat_Cons [OF firstTo_repeatN [OF om] 3]
  note 5 = firstTo_cat_Cons [OF firstTo_lit 4]
  note 6 = firstTo_cat_Cons [OF firstTo_repeatN [OF oh] 5]
  note 7 = firstTo_cat_Cons [OF firstTo_Atom [OF sgc] 6]
  note 8 = firstTo_cat_Cons [OF firstTo_repeatN [OF ss] 7]
  note 9 = firstTo_cat_Cons [OF firstTo_lit 8]
  note 10 = firstTo_cat_Cons [OF firstTo_repeatN [OF mi] 9]
  note 11 = firstTo_cat_Cons [OF firstTo_lit 10]
  note 12 = firstTo_cat_Cons [OF firstTo_repeatN [OF hh] 11]
  note 13 = firstTo_cat_Cons [OF firstTo_lit 12]
  note 14 = firstTo_cat_Cons [OF firstTo_repeatN [OF dy] 13]
  note 15 = firstTo_cat_Cons [OF firstTo_lit 14]
  note 16 = firstTo_cat_Cons [OF firstTo_repeatN [OF mo] 15]
  note 17 = firstTo_cat_Cons [OF firstTo_lit 16]
  note 18 = firstTo_cat_Cons [OF firstTo_repeatN [OF yr] 17]
  note 19 = firstTo_cat_Cons [OF firstTo_lit 18]
  have "replaceFirst timestampPrefix
     (''['' @ yr @ ''-'' @ mo @ ''-'' @ dy @ '' '' @ hh @ '':'' @ mi @ '':'' @ ss @ [sg] @ oh
        @ '':'' @ om @ ''] ['' @ name @ '']: '' @ body) = body"
    unfolding timestampPrefix_def by (rule replaceFirst_Bol [OF 19]) simp
  then show ?thesis by (simp add: h)
qed

subsection \<open>The trimmed transcript\<close>

lemma trimContextByTurns_short:
  assumes "length (turnsOf msgs) \<le> 10"
  shows "trimContextByTurns msgs now = \<lparr>messages = msgs, droppedTurns = 0, summary = []\<rparr>"
  using assms by (simp add: trimContextByTurns_def MAX_TURNS_def)

lemma trimContextByTurns_long:
  assumes "length (turnsOf msgs) > 10"
  shows "droppedTurns (trimContextByTurns msgs now) = length (turnsOf msgs) - 10"
    and "summary (trimContextByTurns msgs now)
           = (case List.find isUser (turnsOf msgs ! (length (turnsOf msgs) - 11)) of
                None \<Rightarrow> [] | Some u \<Rightarrow> summaryOf u)"
    and "summary (trimContextByTurns msgs now) = [] \<Longrightarrow>
           messages (trimContextByTurns msgs now)
             = concat (drop (length (turnsOf msgs) - 10) (turnsOf msgs))"
    and "summary (trimContextByTurns msgs now) \<noteq> [] \<Longrightarrow>
           messages (trimContextByTurns msgs now) \<noteq> []
           \<and> tl (messages (trimContextByTurns msgs now))
                = concat (drop (length (turnsOf msgs) - 10) (turnsOf msgs))
           \<and> role (hd (messages (trimContextByTurns msgs now))) = Some UserRole
           \<and> content (hd (messages (trimContextByTurns msgs now))) = StringContent
                (''[Prior context trimmed. Last topic before trim: ''
                   @ summary (trimContextByTurns msgs now) @ '']'')"
proof -
  let ?turns = "turnsOf msgs"
  let ?smry = "case List.find isUser (?turns ! (length ?turns - 11)) of
                 None \<Rightarrow> [] | Some u \<Rightarrow> summaryOf u"
  let ?kept = "concat (drop (length ?turns - 10) ?turns)"
  have e: "length ?turns - 10 - 1 = length ?turns - 11" by simp
  from assms have n: "\<not> length ?turns \<le> 10" by simp
  have t: "trimContextByTurns msgs now =
      (if ?smry \<noteq> []
       then \<lparr>messages =
               \<lparr>role = Some UserRole,
                content = StringContent
                  (''[Prior context trimmed. Last topic before trim: '' @ ?smry @ '']''),
                timestamp = Some (case ?kept of
                                    first # _ \<Rightarrow> (case timestamp first of Some t \<Rightarrow> t | None \<Rightarrow> now)
                                  | [] \<Rightarrow> now)\<rparr> # ?kept,
             droppedTurns = length ?turns - 10, summary = ?smry\<rparr>
       else \<lparr>messages = ?kept, droppedTurns = length ?turns - 10, summary = ?smry\<rparr>)"
    unfolding trimContextByTurns_def Let_def MAX_TURNS_def e
    by (simp only: n if_False option.case_distrib cong: option.case_cong)
  show "droppedTurns (trimContextByTurns msgs now) = length ?turns - 10"
    unfolding t by simp
  show s: "summary (trimContextByTurns msgs now) = ?smry"
    unfolding t by simp
  show "messages (trimContextByTurns msgs now) = ?kept"
    if "summary (trimContextByTurns msgs now) = []"
    using that unfolding s unfolding t by simp
  show "messages (trimContextByTurns msgs now) \<noteq> []
           \<and> tl (messages (trimContextByTurns msgs now)) = ?kept
           \<and> role (hd (messages (trimContextByTurns msgs now))) = Some UserRole
           \<and> content (hd (messages (trimContextByTurns msgs now))) = StringContent
                (''[Prior context trimmed. Last topic before trim: ''
                   @ summary (trimContextByTurns msgs now) @ '']'')"
    if "summary (trimContextByTurns msgs now) \<noteq> []"
    using that unfolding s unfolding t by simp
qed

lemma kept_turns:
  assumes "length (turnsOf msgs) > 10"
  shows "length (drop (length (turnsOf msgs) - 10) (turnsOf msgs)) = 10"
    and "turnsOf (concat (drop (length (turnsOf msgs) - 10) (turnsOf msgs)))
           = drop (length (turnsOf msgs) - 10) (turnsOf msgs)"
proof -
  from assms show "length (drop (length (turnsOf msgs) - 10) (turnsOf msgs)) = 10" by simp
  show "turnsOf (concat (drop (length (turnsOf msgs) - 10) (turnsOf msgs)))
           = drop (length (turnsOf msgs) - 10) (turnsOf msgs)"
    by (rule turnsOf_concat [OF turnList_drop [OF turnsOf_turnList]])
qed

text \<open>
  C5 (as amended).  The transcript is cut into turns: a new turn starts at every user message
  (the first turn also holds the messages before the first user message).  With at most
  10 turns \<open>trimContextByTurns\<close> returns the messages unchanged, with \<open>droppedTurns = 0\<close>.
  With more than 10 turns it keeps the messages of the last 10 turns, which are again
  exactly 10 turns, and reports the number of dropped turns.  The summary is taken from the
  first user message of the last dropped turn: its text (the string, or the text parts
  joined by a space) without the leading header \<open>[YYYY-MM-DD HH:MM:SS+HH:MM] [name]: \<close>, as
  it is when it has at most 100 characters, and otherwise cut to its first 100 characters
  followed by \<open>...\<close>.  When the summary is not empty, one user message
  \<open>[Prior context trimmed. Last topic before trim: <summary>]\<close> is put in front of the kept
  messages; when it is empty (an empty text, or a dropped turn without a user message),
  nothing is put in front.
\<close>

theorem trimContextByTurns_turns:
  "concat (turnsOf msgs) = msgs \<and> turnList (turnsOf msgs)
   \<and> (length (turnsOf msgs) \<le> 10 \<longrightarrow>
        trimContextByTurns msgs now = \<lparr>messages = msgs, droppedTurns = 0, summary = []\<rparr>)
   \<and> (length (turnsOf msgs) > 10 \<longrightarrow>
        droppedTurns (trimContextByTurns msgs now) = length (turnsOf msgs) - 10
        \<and> length (drop (length (turnsOf msgs) - 10) (turnsOf msgs)) = 10
        \<and> turnsOf (concat (drop (length (turnsOf msgs) - 10) (turnsOf msgs)))
             = drop (length (turnsOf msgs) - 10) (turnsOf msgs)
        \<and> summary (trimContextByTurns msgs now)
             = (case List.find isUser (turnsOf msgs ! (length (turnsOf msgs) - 11)) of
                  None \<Rightarrow> [] | Some u \<Rightarrow> summaryOf u)
        \<and> (summary (trimContextByTurns msgs now) = [] \<longrightarrow>
             messages (trimContextByTurns msgs now)
               = concat (drop (length (turnsOf msgs) - 10) (turnsOf msgs)))
        \<and> (summary (trimContextByTurns msgs now) \<noteq> [] \<longrightarrow>
             messages (trimContextByTurns msgs now) \<noteq> []
             \<and> tl (messages (trimContextByTurns msgs now))
                 = concat (drop (length (turnsOf msgs) - 10) (turnsOf msgs))
             \<and> role (hd (messages (trimContextByTurns msgs now))) = Some UserRole
             \<and> content (hd (messages (trimContextByTurns msgs now))) = StringContent
                 (''[Prior context trimmed. Last topic before trim: ''
                    @ summary (trimContextByTurns msgs now) @ '']'')))
   \<and> summaryOf u =
        (if length (replaceFirst timestampPrefix (textOf (content u))) > 100
         then take 100 (replaceFirst timestampPrefix (textOf (content u))) @ ''...''
         else replaceFirst timestampPrefix (textOf (content u)))
   \<and> (isHeader h \<longrightarrow> replaceFirst timestampPrefix (h @ body) = body)"
  apply (intro conjI impI)
  subgoal by (rule concat_turnsOf)
  subgoal by (rule turnsOf_turnList)
  subgoal by (rule trimContextByTurns_short)
  subgoal by (rule trimContextByTurns_long(1))
  subgoal by (rule kept_turns(1))
  subgoal by (rule kept_turns(2))
  subgoal by (rule trimContextByTurns_long(2))
  subgoal by (rule trimContextByTurns_long(3))
  subgoal using trimContextByTurns_long(4) [of msgs now] by blast
  subgoal using trimContextByTurns_long(4) [of msgs now] by blast
  subgoal using trimContextByTurns_long(4) [of msgs now] by blast
  subgoal using trimContextByTurns_long(4) [of msgs now] by blast
  subgoal by (simp add: summaryOf_def Let_def)
  subgoal by (rule replaceFirst_timestampPrefix)
  done

definition userSays :: "string \<Rightarrow> AgentMessage" where
  "userSays t = \<lparr>role = Some UserRole, content = StringContent t, timestamp = Some 0\<rparr>"

theorem trimContextByTurns_turns_counterexample:
  "trimContextByTurns (userSays [] # replicate 10 (userSays ''hi'')) 0
     = \<lparr>messages = replicate 10 (userSays ''hi''), droppedTurns = 1, summary = []\<rparr>
   \<and> length (turnsOf (userSays [] # replicate 10 (userSays ''hi''))) = 11
   \<and> content (hd (messages (trimContextByTurns
        (userSays (replicate 101 CHR ''x'') # replicate 10 (userSays ''hi'')) 0)))
     = StringContent (''[Prior context trimmed. Last topic before trim: ''
                        @ replicate 100 CHR ''x'' @ ''...]'')"
  by code_simp

theorem trimContextByTurns_turns_witness:
  "summary (trimContextByTurns
      (userSays ''[2025-01-02 03:04:05+01:00] [bob]: hello'' # replicate 10 (userSays ''hi'')) 0) = ''hello''
   \<and> tl (messages (trimContextByTurns
      (userSays ''[2025-01-02 03:04:05+01:00] [bob]: hello'' # replicate 10 (userSays ''hi'')) 0))
       = replicate 10 (userSays ''hi'')
   \<and> trimContextByTurns (replicate 10 (userSays ''hi'')) 0
       = \<lparr>messages = replicate 10 (userSays ''hi''), droppedTurns = 0, summary = []\<rparr>
   \<and> replaceFirst timestampPrefix (''[2025-01-02 03:04:05+01:00] [bob]: '' @ ''hello'') = ''hello''"
proof -
  let ?M = "userSays ''[2025-01-02 03:04:05+01:00] [bob]: hello'' # replicate 10 (userSays ''hi'')"
  let ?S = "replicate 10 (userSays ''hi'')"
  note T = trimContextByTurns_turns [of ?M 0 "userSays ''hi''" "''[2025-01-02 03:04:05+01:00] [bob]: ''" "''hello''"]
  note T' = trimContextByTurns_turns [of ?S 0 "userSays ''hi''" "''[2025-01-02 03:04:05+01:00] [bob]: ''" "''hello''"]
  have n: "length (turnsOf ?M) > 10" by code_simp
  have n': "length (turnsOf ?S) \<le> 10" by code_simp
  have c: "(case List.find isUser (turnsOf ?M ! (length (turnsOf ?M) - 11)) of
              None \<Rightarrow> [] | Some u \<Rightarrow> summaryOf u) = ''hello''"
    by code_simp
  have k: "concat (drop (length (turnsOf ?M) - 10) (turnsOf ?M)) = ?S" by code_simp
  from T n have "summary (trimContextByTurns ?M 0)
      = (case List.find isUser (turnsOf ?M ! (length (turnsOf ?M) - 11)) of
              None \<Rightarrow> [] | Some u \<Rightarrow> summaryOf u)"
    by blast
  with c have 1: "summary (trimContextByTurns ?M 0) = ''hello''" by (simp only:)
  then have "summary (trimContextByTurns ?M 0) \<noteq> []" by simp
  with T n have "tl (messages (trimContextByTurns ?M 0))
      = concat (drop (length (turnsOf ?M) - 10) (turnsOf ?M))"
    by blast
  with k have 2: "tl (messages (trimContextByTurns ?M 0)) = ?S" by (simp only:)
  from T' n' have 3: "trimContextByTurns ?S 0 = \<lparr>messages = ?S, droppedTurns = 0, summary = []\<rparr>"
    by blast
  have "isHeader ''[2025-01-02 03:04:05+01:00] [bob]: ''"
    unfolding isHeader_def
    by (rule exI [of _ "''2025''"], rule exI [of _ "''01''"], rule exI [of _ "''02''"],
        rule exI [of _ "''03''"], rule exI [of _ "''04''"], rule exI [of _ "''05''"],
        rule exI [of _ "CHR ''+''"], rule exI [of _ "''01''"], rule exI [of _ "''00''"],
        rule exI [of _ "''bob''"]) (simp add: digitsN_def digits_def)
  with T have 4: "replaceFirst timestampPrefix (''[2025-01-02 03:04:05+01:00] [bob]: '' @ ''hello'') = ''hello''"
    by blast
  from 1 2 3 4 show ?thesis by (intro conjI)
qed

section \<open>The channel store: theorems\<close>

subsection \<open>The pending timers and the recorded keys\<close>

definition storeInv :: "ChannelStore \<Rightarrow> bool" where
  "storeInv store \<longleftrightarrow>
     distinct (map snd (timers store))
     \<and> (\<forall>d k. (d, k) \<in> set (timers store) \<longrightarrow> (\<exists>t. recentlyLogged store k = Some t \<and> d = t + 60000))
     \<and> (\<forall>k t. recentlyLogged store k = Some t \<longrightarrow> (t + 60000, k) \<in> set (timers store))"

lemma storeInv_new: "storeInv newChannelStore"
  by (simp add: storeInv_def newChannelStore_def)

lemma logMessage_known:
  "recentlyLogged store (c @ '':'' @ ts m) \<noteq> None \<Longrightarrow>
   logMessage now isoN ok c m (store, files) = (AlreadyLogged, store, files)"
  by (simp add: logMessage_def)

lemma logMessage_fresh:
  "recentlyLogged store (c @ '':'' @ ts m) = None \<Longrightarrow>
   logMessage now isoN ok c m (store, files) =
     (if ok then Logged else AppendFailed,
      store\<lparr>recentlyLogged := (recentlyLogged store)(c @ '':'' @ ts m \<mapsto> now),
            timers := timers store @ [(now + 60000, c @ '':'' @ ts m)]\<rparr>,
      if ok then files(c := files c @ [if date m = [] then m\<lparr>date := isoN\<rparr> else m]) else files)"
  by (simp add: logMessage_def Let_def)

lemma logMessage_inv:
  assumes "storeInv store" "logMessage now isoN ok c m (store, files) = (out, store', files')"
  shows "storeInv store'"
proof (cases "recentlyLogged store (c @ '':'' @ ts m)")
  case (Some t)
  with assms(2) have "store' = store" by (simp add: logMessage_known)
  with assms(1) show ?thesis by simp
next
  case None
  let ?k = "c @ '':'' @ ts m"
  from assms(2) None
  have s: "store' = store\<lparr>recentlyLogged := (recentlyLogged store)(?k \<mapsto> now),
            timers := timers store @ [(now + 60000, ?k)]\<rparr>"
    by (simp add: logMessage_fresh)
  from assms(1) None have nk: "?k \<notin> snd ` set (timers store)"
    unfolding storeInv_def by force
  from assms(1) nk show ?thesis
    unfolding storeInv_def s by (auto simp: image_iff)
qed

lemma timerFires_inv:
  assumes "storeInv store" "timerFires now i store = Some store'"
  shows "storeInv store'"
proof -
  from assms(2) have i: "i < length (timers store)"
    and s: "store' = store\<lparr>recentlyLogged := (recentlyLogged store)(snd (timers store ! i) := None),
                       timers := take i (timers store) @ drop (Suc i) (timers store)\<rparr>"
    by (auto simp: timerFires_def split: if_splits)
  let ?T = "timers store"
  let ?k = "snd (?T ! i)"
  have T: "?T = take i ?T @ (?T ! i) # drop (Suc i) ?T"
    using i by (simp add: id_take_nth_drop)
  from assms(1) have d: "distinct (map snd ?T)" by (simp add: storeInv_def)
  then have "distinct (map snd (take i ?T) @ ?k # map snd (drop (Suc i) ?T))"
    by (subst (asm) T) simp
  then have nk: "?k \<notin> snd ` set (take i ?T @ drop (Suc i) ?T)"
    and d': "distinct (map snd (take i ?T @ drop (Suc i) ?T))"
    by auto
  have sub: "set (take i ?T @ drop (Suc i) ?T) \<subseteq> set ?T"
    by (auto dest: in_set_takeD in_set_dropD)
  have sup: "set ?T \<subseteq> insert (?T ! i) (set (take i ?T @ drop (Suc i) ?T))"
    by (subst T) auto
  show ?thesis
    unfolding storeInv_def s
  proof (intro conjI allI impI)
    show "distinct (map snd (timers (store\<lparr>recentlyLogged := (recentlyLogged store)(?k := None),
                       timers := take i ?T @ drop (Suc i) ?T\<rparr>)))"
      using d' by simp
  next
    fix d k
    assume "(d, k) \<in> set (timers (store\<lparr>recentlyLogged := (recentlyLogged store)(?k := None),
                       timers := take i ?T @ drop (Suc i) ?T\<rparr>))"
    then have m: "(d, k) \<in> set (take i ?T @ drop (Suc i) ?T)" by simp
    with nk have "k \<noteq> ?k" by (metis image_eqI snd_conv)
    moreover from m sub assms(1) have "\<exists>t. recentlyLogged store k = Some t \<and> d = t + 60000"
      unfolding storeInv_def by blast
    ultimately show "\<exists>t. recentlyLogged (store\<lparr>recentlyLogged := (recentlyLogged store)(?k := None),
                       timers := take i ?T @ drop (Suc i) ?T\<rparr>) k = Some t \<and> d = t + 60000"
      by simp
  next
    fix k t
    assume "recentlyLogged (store\<lparr>recentlyLogged := (recentlyLogged store)(?k := None),
                       timers := take i ?T @ drop (Suc i) ?T\<rparr>) k = Some t"
    then have k: "k \<noteq> ?k" and r: "recentlyLogged store k = Some t"
      by (auto split: if_splits)
    from r assms(1) have "(t + 60000, k) \<in> set ?T" unfolding storeInv_def by blast
    with sup have "(t + 60000, k) = ?T ! i \<or> (t + 60000, k) \<in> set (take i ?T @ drop (Suc i) ?T)"
      by blast
    with k have "(t + 60000, k) \<in> set (take i ?T @ drop (Suc i) ?T)"
      by (metis snd_conv)
    then show "(t + 60000, k) \<in> set (timers (store\<lparr>recentlyLogged := (recentlyLogged store)(?k := None),
                       timers := take i ?T @ drop (Suc i) ?T\<rparr>))"
      by simp
  qed
qed

lemma timerFires_keeps:
  assumes "storeInv store" "timerFires now i store = Some store'"
    and "recentlyLogged store k = Some t" "now < t + 60000"
  shows "recentlyLogged store' k = Some t"
proof -
  from assms(2) have i: "i < length (timers store)" and due: "fst (timers store ! i) \<le> now"
    and s: "store' = store\<lparr>recentlyLogged := (recentlyLogged store)(snd (timers store ! i) := None),
                       timers := take i (timers store) @ drop (Suc i) (timers store)\<rparr>"
    by (auto simp: timerFires_def split: if_splits)
  obtain d k' where e: "timers store ! i = (d, k')" by (cases "timers store ! i")
  with i have "(d, k') \<in> set (timers store)" by (metis nth_mem)
  with assms(1) obtain t' where t': "recentlyLogged store k' = Some t'" "d = t' + 60000"
    unfolding storeInv_def by blast
  from due e t' assms(4) have "t' \<noteq> t" by auto
  with t' assms(3) have "k' \<noteq> k" by auto
  with assms(3) show ?thesis by (simp add: s e)
qed

lemma logMessage_keeps:
  assumes "logMessage now isoN ok c m (store, files) = (out, store', files')"
    and "recentlyLogged store k = Some t"
  shows "recentlyLogged store' k = Some t"
proof (cases "recentlyLogged store (c @ '':'' @ ts m)")
  case (Some t')
  with assms show ?thesis by (simp add: logMessage_known)
next
  case None
  with assms(2) have "k \<noteq> c @ '':'' @ ts m" by auto
  with assms None show ?thesis by (auto simp: logMessage_fresh)
qed

subsection \<open>Executions of the store\<close>

lemma runStore_Log:
  "runStore ((now, LogMessage c m isoN ok) # calls) clock st = Some (outs, st') \<longleftrightarrow>
     clock \<le> now
     \<and> (\<exists>outs'. runStore calls now (snd (logMessage now isoN ok c m st)) = Some (outs', st')
           \<and> outs = Some (fst (logMessage now isoN ok c m st)) # outs')"
  by (cases "logMessage now isoN ok c m st")
     (auto split: option.splits)

lemma runStore_Timer:
  "runStore ((now, TimerFires i) # calls) clock st = Some (outs, st') \<longleftrightarrow>
     clock \<le> now
     \<and> (\<exists>store' outs'. timerFires now i (fst st) = Some store'
           \<and> runStore calls now (store', snd st) = Some (outs', st')
           \<and> outs = None # outs')"
  by (auto split: option.splits)

declare runStore.simps(2) [simp del]

definition endClock :: "(nat \<times> StoreCall) list \<Rightarrow> nat \<Rightarrow> nat" where
  "endClock calls clock = (if calls = [] then clock else fst (last calls))"

lemma runStore_append:
  "runStore (xs @ ys) clock st = Some (outs, st') \<longleftrightarrow>
     (\<exists>o1 st1 o2. runStore xs clock st = Some (o1, st1)
        \<and> runStore ys (endClock xs clock) st1 = Some (o2, st') \<and> outs = o1 @ o2)"
proof (induction xs arbitrary: clock st outs)
  case Nil
  show ?case by (simp add: endClock_def)
next
  case (Cons x xs)
  obtain now call where x: "x = (now, call)" by (cases x)
  have e: "endClock (x # xs) clock = endClock xs now"
    by (simp add: endClock_def x)
  show ?case
  proof (cases call)
    case (LogMessage c m isoN ok)
    show ?thesis
      unfolding x LogMessage append_Cons runStore_Log e [unfolded x LogMessage] Cons.IH
      by auto
  next
    case (TimerFires i)
    show ?thesis
      unfolding x TimerFires append_Cons runStore_Timer e [unfolded x TimerFires] Cons.IH
      by auto
  qed
qed

lemma runStore_length:
  "runStore calls clock st = Some (outs, st') \<Longrightarrow> length outs = length calls"
proof (induction calls arbitrary: clock st outs)
  case Nil
  then show ?case by simp
next
  case (Cons x xs)
  obtain now call where x: "x = (now, call)" by (cases x)
  from Cons.prems show ?case
    unfolding x by (cases call) (auto simp: runStore_Log runStore_Timer dest: Cons.IH)
qed

lemma runStore_times:
  "runStore calls clock st = Some (outs, st') \<Longrightarrow> x \<in> set calls \<Longrightarrow>
   clock \<le> fst x \<and> fst x \<le> endClock calls clock"
proof (induction calls arbitrary: clock st outs x)
  case Nil
  then show ?case by simp
next
  case (Cons y ys)
  obtain now call where y: "y = (now, call)" by (cases y)
  have "clock \<le> now \<and> (\<exists>st1 outs1. runStore ys now st1 = Some (outs1, st'))"
  proof (cases call)
    case (LogMessage c m isoN ok)
    with Cons.prems(1) have "clock \<le> now"
      and "\<exists>outs'. runStore ys now (snd (logMessage now isoN ok c m st)) = Some (outs', st')"
      by (auto simp: y runStore_Log)
    then show ?thesis by blast
  next
    case (TimerFires i)
    with Cons.prems(1) have "clock \<le> now"
      and "\<exists>store' outs'. runStore ys now (store', snd st) = Some (outs', st')"
      by (auto simp: y runStore_Timer)
    then show ?thesis by blast
  qed
  then obtain st1 outs1 where c: "clock \<le> now"
    and r: "runStore ys now st1 = Some (outs1, st')"
    by blast
  have e: "endClock (y # ys) clock = endClock ys now"
    by (simp add: endClock_def y)
  show ?case
  proof (cases "x = y")
    case True
    show ?thesis
    proof (cases ys)
      case Nil
      with True c show ?thesis by (simp add: y endClock_def)
    next
      case (Cons z zs)
      then have "last ys \<in> set ys" by simp
      from Cons.IH [OF r this] have "now \<le> fst (last ys)" by simp
      with True c Cons show ?thesis by (simp add: y endClock_def)
    qed
  next
    case False
    with Cons.prems(2) have "x \<in> set ys" by simp
    from Cons.IH [OF r this] c show ?thesis unfolding e by simp
  qed
qed

lemma runStore_window:
  assumes "storeInv store" "recentlyLogged store k = Some t"
    and "runStore calls clock (store, files) = Some (outs, store', files')"
    and "\<forall>x \<in> set calls. fst x < t + 60000"
  shows "storeInv store' \<and> recentlyLogged store' k = Some t"
  using assms
proof (induction calls arbitrary: clock store files outs)
  case Nil
  then show ?case by simp
next
  case (Cons x xs)
  obtain now call where x: "x = (now, call)" by (cases x)
  from Cons.prems(4) have now: "now < t + 60000" and rest: "\<forall>x \<in> set xs. fst x < t + 60000"
    by (simp_all add: x)
  show ?case
  proof (cases call)
    case (LogMessage c m isoN ok)
    obtain out store1 files1 where l: "logMessage now isoN ok c m (store, files) = (out, store1, files1)"
      by (cases "logMessage now isoN ok c m (store, files)")
    with Cons.prems(3) obtain outs' where r: "runStore xs now (store1, files1) = Some (outs', store', files')"
      unfolding x LogMessage runStore_Log by auto
    from logMessage_inv [OF Cons.prems(1) l] logMessage_keeps [OF l Cons.prems(2)]
    show ?thesis by (rule Cons.IH [OF _ _ r rest])
  next
    case (TimerFires i)
    with Cons.prems(3) obtain store1 outs' where f: "timerFires now i store = Some store1"
      and r: "runStore xs now (store1, files) = Some (outs', store', files')"
      unfolding x TimerFires runStore_Timer by auto
    from timerFires_inv [OF Cons.prems(1) f] timerFires_keeps [OF Cons.prems(1) f Cons.prems(2) now]
    show ?thesis by (rule Cons.IH [OF _ _ r rest])
  qed
qed

lemma runStore_inv:
  assumes "storeInv store" "runStore calls clock (store, files) = Some (outs, store', files')"
  shows "storeInv store'"
  using assms
proof (induction calls arbitrary: clock store files outs)
  case Nil
  then show ?case by simp
next
  case (Cons x xs)
  obtain now call where x: "x = (now, call)" by (cases x)
  show ?case
  proof (cases call)
    case (LogMessage c m isoN ok)
    obtain out store1 files1 where l: "logMessage now isoN ok c m (store, files) = (out, store1, files1)"
      by (cases "logMessage now isoN ok c m (store, files)")
    with Cons.prems(2) obtain outs' where r: "runStore xs now (store1, files1) = Some (outs', store', files')"
      unfolding x LogMessage runStore_Log by auto
    from logMessage_inv [OF Cons.prems(1) l] show ?thesis by (rule Cons.IH [OF _ r])
  next
    case (TimerFires i)
    with Cons.prems(2) obtain store1 outs' where f: "timerFires now i store = Some store1"
      and r: "runStore xs now (store1, files) = Some (outs', store', files')"
      unfolding x TimerFires runStore_Timer by auto
    from timerFires_inv [OF Cons.prems(1) f] show ?thesis by (rule Cons.IH [OF _ r])
  qed
qed

lemma dedup_core:
  assumes first: "runStore (pre @ [(t1, LogMessage c m1 i1 ok1)]) clock (newChannelStore, files0)
                    = Some (outs1, st1)"
    and rec: "last outs1 \<noteq> Some AlreadyLogged"
    and mid: "runStore mid t1 st1 = Some (outs2, st2)"
    and times: "\<forall>x \<in> set mid. fst x \<le> t2"
    and win: "t2 < t1 + 60000"
    and key: "ts m2 = ts m1"
  shows "storeInv (fst st2) \<and> recentlyLogged (fst st2) (c @ '':'' @ ts m1) = Some t1
         \<and> logMessage t2 i2 ok2 c m2 st2 = (AlreadyLogged, st2)"
proof -
  let ?k = "c @ '':'' @ ts m1"
  from first obtain o1 stp o2 where
    p: "runStore pre clock (newChannelStore, files0) = Some (o1, stp)"
    and c1: "runStore [(t1, LogMessage c m1 i1 ok1)] (endClock pre clock) stp = Some (o2, st1)"
    and o: "outs1 = o1 @ o2"
    unfolding runStore_append by blast
  obtain storep filesp where stp: "stp = (storep, filesp)" by (cases stp)
  obtain store1 files1 where st1: "st1 = (store1, files1)" by (cases st1)
  obtain store2 files2 where st2: "st2 = (store2, files2)" by (cases st2)
  from p have ip: "storeInv storep"
    unfolding stp by (rule runStore_inv [OF storeInv_new])
  from c1 have sl: "snd (logMessage t1 i1 ok1 c m1 (storep, filesp)) = (store1, files1)"
    and o2: "o2 = [Some (fst (logMessage t1 i1 ok1 c m1 (storep, filesp)))]"
    unfolding stp st1 runStore_Log by auto
  from sl have l: "logMessage t1 i1 ok1 c m1 (storep, filesp)
                     = (fst (logMessage t1 i1 ok1 c m1 (storep, filesp)), store1, files1)"
    by (metis prod.collapse)
  from rec o o2 have na: "fst (logMessage t1 i1 ok1 c m1 (storep, filesp)) \<noteq> AlreadyLogged"
    by simp
  have fresh: "recentlyLogged storep ?k = None"
  proof (rule ccontr)
    assume "recentlyLogged storep ?k \<noteq> None"
    from logMessage_known [OF this] na show False by simp
  qed
  from l logMessage_fresh [OF fresh, of t1 i1 ok1 filesp]
  have r1: "recentlyLogged store1 ?k = Some t1" by auto
  have i1: "storeInv store1" by (rule logMessage_inv [OF ip l])
  from times win have w: "\<forall>x \<in> set mid. fst x < t1 + 60000" by auto
  from runStore_window [OF i1 r1 mid [unfolded st1 st2] w]
  have i2: "storeInv store2" and r2: "recentlyLogged store2 ?k = Some t1" by simp_all
  from r2 key have "recentlyLogged store2 (c @ '':'' @ ts m2) \<noteq> None" by simp
  from logMessage_known [OF this] i2 r2 show ?thesis by (simp add: st2)
qed

lemma dedup_run:
  assumes run: "runStore (pre @ (t1, LogMessage c m1 i1 ok1) # mid @ (t2, LogMessage c m2 i2 ok2) # post)
                  clock (newChannelStore, files0) = Some (outs, st')"
    and key: "ts m2 = ts m1"
    and first: "outs ! length pre = Some Logged"
    and second: "outs ! Suc (length pre + length mid) = Some Logged"
  shows "t1 + 60000 \<le> t2"
proof (rule ccontr)
  assume "\<not> t1 + 60000 \<le> t2"
  then have win: "t2 < t1 + 60000" by simp
  let ?c1 = "(t1, LogMessage c m1 i1 ok1)" and ?c2 = "(t2, LogMessage c m2 i2 ok2)"
  have split: "pre @ ?c1 # mid @ ?c2 # post = (pre @ [?c1]) @ (mid @ [?c2]) @ post" by simp
  from run obtain oa sta ob stb oc where
    a: "runStore (pre @ [?c1]) clock (newChannelStore, files0) = Some (oa, sta)"
    and b: "runStore (mid @ [?c2]) (endClock (pre @ [?c1]) clock) sta = Some (ob, stb)"
    and outs: "outs = oa @ ob @ oc"
    unfolding split runStore_append [of "pre @ [?c1]"] runStore_append [of "mid @ [?c2]"] by blast
  have e: "endClock (pre @ [?c1]) clock = t1" by (simp add: endClock_def)
  from b obtain om stm o2 where
    m: "runStore mid t1 sta = Some (om, stm)"
    and c2: "runStore [?c2] (endClock mid t1) stm = Some (o2, stb)"
    and ob: "ob = om @ o2"
    unfolding e runStore_append by blast
  from runStore_length [OF a] have la: "length oa = Suc (length pre)" by simp
  from runStore_length [OF m] have lm: "length om = length mid" by simp
  from a obtain o1 where oa: "oa = o1 @ [Some (fst (logMessage t1 i1 ok1 c m1 (snd (the (runStore pre clock (newChannelStore, files0))))))]"
    unfolding runStore_append runStore_Log by auto
  from la oa have lo1: "length o1 = length pre" by simp
  from first outs oa lo1 have f: "last oa = Some Logged"
    by (simp add: nth_append)
  from c2 have o2: "o2 = [Some (fst (logMessage t2 i2 ok2 c m2 stm))]"
    unfolding runStore_Log by auto
  from second outs ob o2 la lm have s: "fst (logMessage t2 i2 ok2 c m2 stm) = Logged"
    by (simp add: nth_append)
  have times: "\<forall>x \<in> set mid. fst x \<le> t2"
  proof
    fix x assume "x \<in> set mid"
    then have "x \<in> set (mid @ [?c2])" by simp
    from runStore_times [OF b [unfolded e] this] show "fst x \<le> t2"
      by (simp add: endClock_def)
  qed
  from f have "last oa \<noteq> Some AlreadyLogged" by simp
  from dedup_core [OF a this m times win key, of i2 ok2] s show False by simp
qed

lemma logMessage_files:
  "snd (snd (logMessage now isoN ok c m (store, files))) =
     (if fst (logMessage now isoN ok c m (store, files)) = Logged
      then files(c := files c @ [if date m = [] then m\<lparr>date := isoN\<rparr> else m])
      else files)"
  by (simp add: logMessage_def Let_def)

lemma logUserMessage_appends:
  assumes "snowflakeDate (evTs event) \<noteq> None" "okA"
  shows "fst (logUserMessage users snowflakeDate okA event (store, files)) \<noteq> None"
    and "map ts (snd (snd (logUserMessage users snowflakeDate okA event (store, files))) (channel event))
           = map ts (files (channel event)) @ [evTs event]"
    and "c' \<noteq> channel event \<Longrightarrow>
         snd (snd (logUserMessage users snowflakeDate okA event (store, files))) c' = files c'"
  using assms
  by (auto simp: logUserMessage_def logToFile_def split: option.splits prod.splits)

lemma logUserMessage_throws:
  assumes "snowflakeDate (evTs event) = None \<or> \<not> okA"
  shows "fst (logUserMessage users snowflakeDate okA event (store, files)) = None"
    and "snd (snd (logUserMessage users snowflakeDate okA event (store, files))) = files"
  using assms
  by (auto simp: logUserMessage_def logToFile_def split: option.splits prod.splits)

lemma logBotResponse_appends:
  "logBotResponse isoN True chan txt tsv files = Some files' \<Longrightarrow>
   map ts (files' chan) = map ts (files chan) @ [tsv]"
  by (auto simp: logBotResponse_def logToFile_def)

text \<open>
  C4 (as amended).  Writes through \<open>ChannelStore.logMessage\<close> are deduplicated: in every
  execution of the store (calls of \<open>logMessage\<close> and timer callbacks, none before its time),
  once a write for a key \<open>channelId:ts\<close> has recorded the key, a write for the same key less
  than 60 seconds later returns \<open>false\<close> and changes neither the store nor the file; so two
  writes for one key that both append a line are at least 60 seconds apart.  A write that
  returns \<open>true\<close> appends exactly its own line to its channel's file.  The bot's own logging,
  \<open>logUserMessage\<close> for inbound messages and \<open>logBotResponse\<close> for its responses, goes
  through \<open>logToFile\<close>, which appends to the same file with no such check: every call of
  \<open>logUserMessage\<close> that does not throw (the date of the id can be computed and the file can
  be written) adds a line with the event's \<open>ts\<close>, also when the file has such a line
  already, and leaves the files of the other channels as they are; a call that throws adds
  nothing; every call of \<open>logBotResponse\<close> that does not throw adds a line with the \<open>ts\<close> it
  is given.
\<close>

theorem logMessage_dedup:
  "(runStore (pre @ [(t1, LogMessage c m1 i1 ok1)]) clock (newChannelStore, files0) = Some (outs1, st1)
      \<and> last outs1 \<noteq> Some AlreadyLogged
      \<and> runStore mid t1 st1 = Some (outs2, st2)
      \<and> (\<forall>x \<in> set mid. fst x \<le> t2) \<and> t2 < t1 + 60000 \<and> ts m2 = ts m1
    \<longrightarrow> logMessage t2 i2 ok2 c m2 st2 = (AlreadyLogged, st2))
   \<and> (runStore (pre @ (t1, LogMessage c m1 i1 ok1) # mid @ (t2, LogMessage c m2 i2 ok2) # post)
          clock (newChannelStore, files0) = Some (outs, st')
      \<and> ts m2 = ts m1 \<and> outs ! length pre = Some Logged
      \<and> outs ! Suc (length pre + length mid) = Some Logged
    \<longrightarrow> t1 + 60000 \<le> t2)
   \<and> snd (snd (logMessage now isoN ok c m (store, files))) =
       (if fst (logMessage now isoN ok c m (store, files)) = Logged
        then files(c := files c @ [if date m = [] then m\<lparr>date := isoN\<rparr> else m])
        else files)
   \<and> logToFile okA chan entry files = (if okA then Some (files(chan := files chan @ [entry])) else None)
   \<and> (snowflakeDate (evTs event) \<noteq> None \<and> okA
      \<longrightarrow> fst (logUserMessage users snowflakeDate okA event (store, files)) \<noteq> None
        \<and> map ts (snd (snd (logUserMessage users snowflakeDate okA event (store, files))) (channel event))
            = map ts (files (channel event)) @ [evTs event]
        \<and> (\<forall>c'. c' \<noteq> channel event
              \<longrightarrow> snd (snd (logUserMessage users snowflakeDate okA event (store, files))) c' = files c'))
   \<and> (snowflakeDate (evTs event) = None \<or> \<not> okA
      \<longrightarrow> fst (logUserMessage users snowflakeDate okA event (store, files)) = None
        \<and> snd (snd (logUserMessage users snowflakeDate okA event (store, files))) = files)
   \<and> (logBotResponse isoN True chan txt tsv files = Some files'
      \<longrightarrow> map ts (files' chan) = map ts (files chan) @ [tsv])"
proof (intro conjI impI allI)
  assume a: "runStore (pre @ [(t1, LogMessage c m1 i1 ok1)]) clock (newChannelStore, files0) = Some (outs1, st1)
      \<and> last outs1 \<noteq> Some AlreadyLogged
      \<and> runStore mid t1 st1 = Some (outs2, st2)
      \<and> (\<forall>x \<in> set mid. fst x \<le> t2) \<and> t2 < t1 + 60000 \<and> ts m2 = ts m1"
  then have 1: "runStore (pre @ [(t1, LogMessage c m1 i1 ok1)]) clock (newChannelStore, files0) = Some (outs1, st1)"
    and 2: "last outs1 \<noteq> Some AlreadyLogged" and 3: "runStore mid t1 st1 = Some (outs2, st2)"
    and 4: "\<forall>x \<in> set mid. fst x \<le> t2" and 5: "t2 < t1 + 60000" and 6: "ts m2 = ts m1"
    by blast+
  from dedup_core [OF 1 2 3 4 5 6] show "logMessage t2 i2 ok2 c m2 st2 = (AlreadyLogged, st2)"
    by blast
next
  assume a: "runStore (pre @ (t1, LogMessage c m1 i1 ok1) # mid @ (t2, LogMessage c m2 i2 ok2) # post)
          clock (newChannelStore, files0) = Some (outs, st')
      \<and> ts m2 = ts m1 \<and> outs ! length pre = Some Logged
      \<and> outs ! Suc (length pre + length mid) = Some Logged"
  then have 1: "runStore (pre @ (t1, LogMessage c m1 i1 ok1) # mid @ (t2, LogMessage c m2 i2 ok2) # post)
          clock (newChannelStore, files0) = Some (outs, st')"
    and 2: "ts m2 = ts m1" and 3: "outs ! length pre = Some Logged"
    and 4: "outs ! Suc (length pre + length mid) = Some Logged"
    by blast+
  show "t1 + 60000 \<le> t2" by (rule dedup_run [OF 1 2 3 4])
next
  show "snd (snd (logMessage now isoN ok c m (store, files))) =
       (if fst (logMessage now isoN ok c m (store, files)) = Logged
        then files(c := files c @ [if date m = [] then m\<lparr>date := isoN\<rparr> else m])
        else files)"
    by (rule logMessage_files)
next
  show "logToFile okA chan entry files = (if okA then Some (files(chan := files chan @ [entry])) else None)"
    by (simp add: logToFile_def)
next
  assume "snowflakeDate (evTs event) \<noteq> None \<and> okA"
  then show "fst (logUserMessage users snowflakeDate okA event (store, files)) \<noteq> None"
    using logUserMessage_appends(1) by blast
next
  assume "snowflakeDate (evTs event) \<noteq> None \<and> okA"
  then show "map ts (snd (snd (logUserMessage users snowflakeDate okA event (store, files))) (channel event))
            = map ts (files (channel event)) @ [evTs event]"
    using logUserMessage_appends(2) by blast
next
  fix c'
  assume "snowflakeDate (evTs event) \<noteq> None \<and> okA" "c' \<noteq> channel event"
  then show "snd (snd (logUserMessage users snowflakeDate okA event (store, files))) c' = files c'"
    using logUserMessage_appends(3) by blast
next
  assume "snowflakeDate (evTs event) = None \<or> \<not> okA"
  then show "fst (logUserMessage users snowflakeDate okA event (store, files)) = None"
    by (rule logUserMessage_throws)
next
  assume "snowflakeDate (evTs event) = None \<or> \<not> okA"
  then show "snd (snd (logUserMessage users snowflakeDate okA event (store, files))) = files"
    by (rule logUserMessage_throws)
next
  assume "logBotResponse isoN True chan txt tsv files = Some files'"
  then show "map ts (files' chan) = map ts (files chan) @ [tsv]"
    by (rule logBotResponse_appends)
qed

text \<open>
  An inbound message with the id \<open>100\<close>: \<open>BigInt("100") >> 22n\<close> is \<open>0\<close>, and the date is
  that of the Discord epoch.  The date of the id \<open>12a\<close> cannot be computed.
\<close>

definition helloEvent :: DiscordEvent where
  "helloEvent = \<lparr>evType = Mention, channel = ''c1'', evTs = ''100'', evUser = ''u1'',
                  evText = ''hello'', evFiles = None, evAttachments = None\<rparr>"

definition helloEntry :: LoggedMessage where
  "helloEntry = \<lparr>date = [], ts = ''100'', user = ''u1'', userName = None, displayName = None,
                  msgText = ''hello'', attachments = [], isBot = False\<rparr>"

definition noLogs :: LogFiles where
  "noLogs = (\<lambda>_. [])"

definition dateOfId :: "string \<Rightarrow> string option" where
  "dateOfId tsv = (if tsv = ''100'' then Some ''2015-01-01T00:00:00.000Z'' else None)"

theorem logMessage_dedup_counterexample:
  "map ts (snd (snd (logUserMessage Map.empty dateOfId True helloEvent
       (snd (logUserMessage Map.empty dateOfId True helloEvent (newChannelStore, noLogs))))) ''c1'')
     = [''100'', ''100'']"
  by (simp add: logUserMessage_def logToFile_def helloEvent_def noLogs_def newChannelStore_def
        dateOfId_def)

theorem logMessage_dedup_witness:
  "fst (logMessage 60999 ''d3'' True ''c1'' helloEntry
      (snd (the (runStore [(30000, LogMessage ''c2'' helloEntry ''d2'' True)] 1000
        (snd (the (runStore [(1000, LogMessage ''c1'' helloEntry ''d1'' True)] 0
                    (newChannelStore, noLogs)))))))) = AlreadyLogged
   \<and> map ts (snd (snd (logUserMessage Map.empty dateOfId True helloEvent (newChannelStore, noLogs))) ''c1'')
       = [''100'']
   \<and> snd (snd (logUserMessage Map.empty dateOfId True (helloEvent\<lparr>evTs := ''12a''\<rparr>)
                  (newChannelStore, noLogs))) = noLogs"
proof -
  let ?first = "[(1000, LogMessage ''c1'' helloEntry ''d1'' True)]"
  let ?mid = "[(30000::nat, LogMessage ''c2'' helloEntry ''d2'' True)]"
  let ?r1 = "runStore ?first 0 (newChannelStore, noLogs)"
  let ?st1 = "snd (the ?r1)"
  let ?r2 = "runStore ?mid 1000 ?st1"
  let ?st2 = "snd (the ?r2)"
  have r1: "?r1 = Some (fst (the ?r1), ?st1)" and l1: "last (fst (the ?r1)) \<noteq> Some AlreadyLogged"
    by (simp_all add: runStore.simps logMessage_def newChannelStore_def helloEntry_def Let_def)
  have "?r2 \<noteq> None"
    by (cases "logMessage 30000 ''d2'' True ''c2'' helloEntry ?st1")
       (simp add: runStore.simps)
  then have r2: "?r2 = Some (fst (the ?r2), ?st2)" by auto
  have m: "\<forall>x \<in> set ?mid. fst x \<le> 60999" by simp
  note T = logMessage_dedup [where pre = "[]" and ?t1.0 = 1000 and c = "''c1''" and ?m1.0 = helloEntry
      and ?i1.0 = "''d1''" and ?ok1.0 = True and clock = 0 and ?files0.0 = noLogs
      and ?outs1.0 = "fst (the ?r1)" and ?st1.0 = ?st1 and mid = ?mid and ?outs2.0 = "fst (the ?r2)"
      and ?st2.0 = ?st2 and ?t2.0 = 60999 and ?m2.0 = helloEntry and ?i2.0 = "''d3''" and ?ok2.0 = True
      and users = Map.empty and snowflakeDate = dateOfId and okA = True
      and store = newChannelStore and files = noLogs]
  from T [where event = helloEvent] r1 l1 r2 m
  have "logMessage 60999 ''d3'' True ''c1'' helloEntry ?st2 = (AlreadyLogged, ?st2)"
    by simp
  then have 1: "fst (logMessage 60999 ''d3'' True ''c1'' helloEntry ?st2) = AlreadyLogged" by simp
  have d: "dateOfId (evTs helloEvent) \<noteq> None \<and> True"
    by (simp add: helloEvent_def dateOfId_def)
  with T [where event = helloEvent]
  have "map ts (snd (snd (logUserMessage Map.empty dateOfId True helloEvent (newChannelStore, noLogs)))
                  (channel helloEvent)) = map ts (noLogs (channel helloEvent)) @ [evTs helloEvent]"
    by blast
  then have 2: "map ts (snd (snd (logUserMessage Map.empty dateOfId True helloEvent (newChannelStore, noLogs))) ''c1'')
       = [''100'']"
    by (simp add: helloEvent_def noLogs_def)
  have "dateOfId (evTs (helloEvent\<lparr>evTs := ''12a''\<rparr>)) = None \<or> \<not> True"
    by (simp add: dateOfId_def)
  with T [where event = "helloEvent\<lparr>evTs := ''12a''\<rparr>"]
  have 3: "snd (snd (logUserMessage Map.empty dateOfId True (helloEvent\<lparr>evTs := ''12a''\<rparr>)
                  (newChannelStore, noLogs))) = noLogs"
    by blast
  from 1 2 3 show ?thesis by blast
qed

end
